theory Spec2Isabelle
  imports Main "HOL-Library.Word"
begin

unbundle bit_operations_syntax

section \<open>Bytes and errors\<close>

text \<open>Python \<^verbatim>\<open>bytes\<close> objects are lists of 8-bit words.\<close>

type_synonym byte = "8 word"

text \<open>The messages of the \<^verbatim>\<open>FatalError\<close>s raised by the modelled code, as tags.\<close>

datatype fatal =
    NoSerialData
  | StreamStopped
  | TransferStopped nat
  | InvalidHead byte
  | InvalidEscape byte
  | ResponseMismatch
  | ShortStatus nat
  | CommandFailed "byte list"
  | SegmentCount nat
  | InvalidMagic nat
  | SegmentEOF nat nat nat
  | UnknownFlashSize string
  | UnknownFlashFreq string
  | ReadRegFailed nat "byte list"
  | StubOverlap nat nat nat nat
  | StubStartFailed "byte list"
  | Md5Unexpected
  | Md5DoesNotMatch

datatype error =
    FatalError fatal
  | StopIteration
  | IndexError
  | KeyError
  | TypeError
  | StructError
  | ZeroDivisionError
  | AttributeError
  | UnsupportedCommandError
  | NotImplementedInROMError
  | UnicodeDecodeError

text \<open>Raising and sequencing for code that has no state: \<^verbatim>\<open>Inl\<close> is a raised exception.\<close>

definition ebind :: "error + 'a \<Rightarrow> ('a \<Rightarrow> error + 'b) \<Rightarrow> error + 'b" where
  "ebind m f = (case m of Inl e \<Rightarrow> Inl e | Inr v \<Rightarrow> f v)"

section \<open>Packing and unpacking\<close>

text \<open>Little-endian unsigned integers, as \<^verbatim>\<open>struct\<close> reads and writes them.\<close>

fun unpack_le :: "byte list \<Rightarrow> nat" where
  "unpack_le [] = 0"
| "unpack_le (b # bs) = unat b + 256 * unpack_le bs"

fun pack_le :: "nat \<Rightarrow> nat \<Rightarrow> byte list" where
  "pack_le 0 v = []"
| "pack_le (Suc n) v = of_nat (v mod 256) # pack_le n (v div 256)"

text \<open>\<^verbatim>\<open>struct.pack\<close> of one unsigned field of \<open>n\<close> bytes: a value that does not fit is a
  \<^verbatim>\<open>struct.error\<close>.\<close>

definition pack_field :: "nat \<Rightarrow> nat \<Rightarrow> error + byte list" where
  "pack_field n v = (if v < 256 ^ n then Inr (pack_le n v) else Inl StructError)"

text \<open>\<^verbatim>\<open>struct.pack('<II...', v1, v2, ...)\<close>.\<close>

fun pack_I :: "nat list \<Rightarrow> error + byte list" where
  "pack_I [] = Inr []"
| "pack_I (v # vs) =
     ebind (pack_field 4 v) (\<lambda>b. ebind (pack_I vs) (\<lambda>bs. Inr (b @ bs)))"

definition pad_to :: "byte list \<Rightarrow> nat \<Rightarrow> byte \<Rightarrow> byte list" where
  "pad_to data alignment pad_character =
     (let pad_mod = length data mod alignment in
      if pad_mod \<noteq> 0 then data @ replicate (alignment - pad_mod) pad_character else data)"

section \<open>SLIP framing\<close>

subsection \<open>\<^verbatim>\<open>ESPLoader.write\<close>: escaping and delimiting\<close>

text \<open>\<^verbatim>\<open>bytes.replace\<close> for a one-byte pattern: every occurrence of the byte is
  replaced, left to right.\<close>

definition replace_byte :: "byte \<Rightarrow> byte list \<Rightarrow> byte list \<Rightarrow> byte list" where
  "replace_byte old new packet = concat (map (\<lambda>x. if x = old then new else [x]) packet)"

text \<open>The buffer that \<^verbatim>\<open>write\<close> hands to the serial port:
  \<^verbatim>\<open>b'\xc0' + packet.replace(b'\xdb', b'\xdb\xdd').replace(b'\xc0', b'\xdb\xdc') + b'\xc0'\<close>.\<close>

definition slip_encode :: "byte list \<Rightarrow> byte list" where
  "slip_encode packet =
     [0xC0] @ replace_byte 0xC0 [0xDB, 0xDC] (replace_byte 0xDB [0xDB, 0xDD] packet) @ [0xC0]"

subsection \<open>\<^verbatim>\<open>slip_reader\<close>: the decoder generator\<close>

text \<open>The local variables of the generator that survive from byte to byte.\<close>

record slip_state =
  partial_packet :: "byte list option"
  in_escape :: bool
  successful_slip :: bool

text \<open>The \<^verbatim>\<open>for b in read_bytes\<close> loop. It ends by raising, by yielding a packet
  (the state is the one the generator has right after it is resumed, the bytes are the rest of
  \<^verbatim>\<open>read_bytes\<close>), or by running out of bytes.\<close>

datatype slip_result =
    Raise error
  | Yield "byte list" slip_state "byte list"
  | Exhausted slip_state

fun slip_bytes :: "slip_state \<Rightarrow> byte list \<Rightarrow> slip_result" where
  "slip_bytes st [] = Exhausted st"
| "slip_bytes st (b # bs) =
     (case partial_packet st of
        None \<Rightarrow>
          if b = 0xC0 then slip_bytes (st\<lparr>partial_packet := Some []\<rparr>) bs
          else Raise (FatalError (InvalidHead b))
      | Some p \<Rightarrow>
          if in_escape st then
            (if b = 0xDC then
               slip_bytes (st\<lparr>in_escape := False, partial_packet := Some (p @ [0xC0])\<rparr>) bs
             else if b = 0xDD then
               slip_bytes (st\<lparr>in_escape := False, partial_packet := Some (p @ [0xDB])\<rparr>) bs
             else Raise (FatalError (InvalidEscape b)))
          else if b = 0xDB then slip_bytes (st\<lparr>in_escape := True\<rparr>) bs
          else if b = 0xC0 then
            Yield p (st\<lparr>partial_packet := None, successful_slip := True\<rparr>) bs
          else slip_bytes (st\<lparr>partial_packet := Some (p @ [b])\<rparr>) bs)"

text \<open>The message chosen when \<^verbatim>\<open>port.read\<close> returns no bytes.\<close>

definition stop_msg :: "slip_state \<Rightarrow> fatal" where
  "stop_msg st =
     (case partial_packet st of
        None \<Rightarrow> if successful_slip st then StreamStopped else NoSerialData
      | Some p \<Rightarrow> TransferStopped (length p))"

text \<open>The serial port is the list of the results of the successive \<^verbatim>\<open>port.read\<close>
  calls still to come; when the list is used up every further read times out and returns
  \<^verbatim>\<open>b''\<close>. The \<^verbatim>\<open>while True\<close> loop reads chunk after chunk.\<close>

fun slip_loop :: "slip_state \<Rightarrow> byte list list
    \<Rightarrow> (error + byte list \<times> slip_state \<times> byte list) \<times> byte list list" where
  "slip_loop st [] = (Inl (FatalError (stop_msg st)), [])"
| "slip_loop st (c # cs) =
     (if c = [] then (Inl (FatalError (stop_msg st)), cs)
      else case slip_bytes st c of
          Raise e \<Rightarrow> (Inl e, cs)
        | Yield p st' rest \<Rightarrow> (Inr (p, st', rest), cs)
        | Exhausted st' \<Rightarrow> slip_loop st' cs)"

text \<open>The generator object: the port it reads from, the unconsumed rest of the chunk it is
  iterating over, its locals, and whether it has ended by raising.\<close>

record reader =
  port_rx :: "byte list list"
  read_bytes :: "byte list"
  slip :: slip_state
  dead :: bool

definition slip_reader :: "byte list list \<Rightarrow> reader" where
  "slip_reader port =
     \<lparr>port_rx = port, read_bytes = [],
      slip = \<lparr>partial_packet = None, in_escape = False, successful_slip = False\<rparr>,
      dead = False\<rparr>"

text \<open>The generator between two packets, with the given pending input.\<close>

definition idle_reader :: "bool \<Rightarrow> byte list list \<Rightarrow> reader" where
  "idle_reader b port =
     \<lparr>port_rx = port, read_bytes = [],
      slip = \<lparr>partial_packet = None, in_escape = False, successful_slip = b\<rparr>,
      dead = False\<rparr>"

text \<open>\<^verbatim>\<open>next(self._slip_reader)\<close>: run the generator up to its next yield.\<close>

definition slip_next :: "reader \<Rightarrow> (error + byte list) \<times> reader" where
  "slip_next r =
     (if dead r then (Inl StopIteration, r)
      else case slip_bytes (slip r) (read_bytes r) of
          Raise e \<Rightarrow> (Inl e, r\<lparr>dead := True\<rparr>)
        | Yield p st rest \<Rightarrow> (Inr p, r\<lparr>slip := st, read_bytes := rest\<rparr>)
        | Exhausted st \<Rightarrow>
            (case slip_loop st (port_rx r) of
               (Inl e, cs) \<Rightarrow> (Inl e, r\<lparr>port_rx := cs, read_bytes := [], dead := True\<rparr>)
             | (Inr (p, st', rest), cs) \<Rightarrow>
                 (Inr p, r\<lparr>port_rx := cs, read_bytes := rest, slip := st'\<rparr>)))"

section \<open>Checksum\<close>

definition ESP_CHECKSUM_MAGIC :: int where
  "ESP_CHECKSUM_MAGIC = 0xEF"

text \<open>\<^verbatim>\<open>ESPLoader.checksum\<close>: every byte is folded into the state with exclusive or.
  The state is a Python integer.\<close>

fun checksum :: "byte list \<Rightarrow> int \<Rightarrow> int" where
  "checksum [] state = state"
| "checksum (b # data) state = checksum data (state XOR uint b)"

section \<open>Firmware images\<close>

record image_segment =
  addr :: nat
  seg_data :: "byte list"
  file_offs :: "nat option"
  include_in_checksum :: bool

text \<open>The constructor of \<^verbatim>\<open>ImageSegment\<close>: a segment with a nonzero address is padded
  with zero bytes to a multiple of 4.\<close>

definition ImageSegment :: "nat \<Rightarrow> byte list \<Rightarrow> nat option \<Rightarrow> image_segment" where
  "ImageSegment a d fo =
     \<lparr>addr = a, seg_data = (if a \<noteq> 0 then pad_to d 4 0x00 else d), file_offs = fo,
      include_in_checksum = True\<rparr>"

record firmware_image =
  segments :: "image_segment list"
  entrypoint :: nat
  image_flash_mode :: nat
  image_flash_size_freq :: nat
  image_checksum :: nat

text \<open>\<^verbatim>\<open>BaseFirmwareImage.verify\<close>.\<close>

definition verify :: "firmware_image \<Rightarrow> error + unit" where
  "verify img =
     (if length (segments img) > 16 then Inl (FatalError (SegmentCount (length (segments img))))
      else Inr ())"

text \<open>An image file opened for reading is its bytes and a position; \<^verbatim>\<open>f.read(n)\<close> returns
  the bytes from the position on, at most \<open>n\<close> of them, and advances by what it returned.\<close>

definition file_read :: "byte list \<Rightarrow> nat \<Rightarrow> nat \<Rightarrow> byte list" where
  "file_read f pos n = take n (drop pos f)"

text \<open>\<^verbatim>\<open>load_segment\<close>, called \<open>n\<close> times by the constructor's loop. The warning about an
  unusual segment is only printed.\<close>

fun load_segments :: "nat \<Rightarrow> byte list \<Rightarrow> nat \<Rightarrow> image_segment list
    \<Rightarrow> error + image_segment list \<times> nat" where
  "load_segments 0 f pos segs = Inr (segs, pos)"
| "load_segments (Suc n) f pos segs =
     (let hdr = file_read f pos 8 in
      if length hdr < 8 then Inl StructError
      else
        let offset = unpack_le (take 4 hdr);
            size = unpack_le (drop 4 hdr);
            segment_data = file_read f (pos + 8) size
        in if length segment_data < size
           then Inl (FatalError (SegmentEOF offset size (length segment_data)))
           else load_segments n f (pos + 8 + length segment_data)
                  (segs @ [ImageSegment offset segment_data (Some pos)]))"

text \<open>\<^verbatim>\<open>read_checksum\<close>: skip to the last byte of the 16-byte block and read it;
  \<^verbatim>\<open>ord\<close> of an empty read is a \<^verbatim>\<open>TypeError\<close>.\<close>

definition read_checksum :: "byte list \<Rightarrow> nat \<Rightarrow> error + nat" where
  "read_checksum f pos =
     (let b = file_read f (pos + (15 - pos mod 16)) 1 in
      if b = [] then Inl TypeError else Inr (unat (hd b)))"

text \<open>\<^verbatim>\<open>ESP8266ROMFirmwareImage(load_file)\<close>: common header, segments, checksum byte,
  and the constructor's own call of \<^verbatim>\<open>verify\<close>.\<close>

definition ESP8266ROMFirmwareImage :: "byte list \<Rightarrow> error + firmware_image" where
  "ESP8266ROMFirmwareImage f =
     (let hdr = file_read f 0 8 in
      if length hdr < 8 then Inl StructError
      else if unat (hdr ! 0) \<noteq> 0xE9 then Inl (FatalError (InvalidMagic (unat (hdr ! 0))))
      else
        ebind (load_segments (unat (hdr ! 1)) f 8 []) (\<lambda>(segs, pos).
        ebind (read_checksum f pos) (\<lambda>c.
          let img = \<lparr>segments = segs, entrypoint = unpack_le (drop 4 hdr),
                     image_flash_mode = unat (hdr ! 2), image_flash_size_freq = unat (hdr ! 3),
                     image_checksum = c\<rparr>
          in ebind (verify img) (\<lambda>_. Inr img))))"

section \<open>Chip classes and command-line arguments\<close>

text \<open>The ROM loader classes and their inheritance.\<close>

datatype rom_class =
    ESP8266ROM | ESP32ROM | ESP32S2ROM | ESP32S3ROM
  | ESP32C3ROM | ESP32C6ROM | ESP32H2ROM | ESP32C2ROM

fun isinstance :: "rom_class \<Rightarrow> rom_class \<Rightarrow> bool" where
  "isinstance c ESP32ROM = (c \<noteq> ESP8266ROM)"
| "isinstance c ESP32C3ROM = (c \<in> {ESP32C3ROM, ESP32C6ROM, ESP32H2ROM, ESP32C2ROM})"
| "isinstance c ESP32C6ROM = (c \<in> {ESP32C6ROM, ESP32H2ROM})"
| "isinstance c k = (c = k)"

text \<open>\<^verbatim>\<open>isinstance\<close> with a tuple of classes.\<close>

definition isinstance_any :: "rom_class \<Rightarrow> rom_class list \<Rightarrow> bool" where
  "isinstance_any c ks = list_ex (isinstance c) ks"

text \<open>The stub binary of a chip class: \<^verbatim>\<open>STUB_CODE\<close>.\<close>

record stub_code =
  text_start :: nat
  text_seg :: "byte list option"
  data_start :: nat
  data_seg :: "byte list option"
  entry :: nat

text \<open>The class of a loader object: which ROM class it derives from, whether it is the stub
  loader class of that chip, and the class attributes the modelled code reads. The image class
  \<^verbatim>\<open>BOOTLOADER_IMAGE\<close> is given by its constructor from a file's bytes.\<close>

record chip =
  rom :: rom_class
  IS_STUB :: bool
  STATUS_BYTES_LENGTH :: nat
  FLASH_WRITE_SIZE :: nat
  ESP_RAM_BLOCK :: nat
  FLASH_ENCRYPTED_WRITE_ALIGN :: "nat option"
  BOOTLOADER_FLASH_OFFSET :: nat
  ESP_IMAGE_MAGIC :: nat
  BOOTLOADER_IMAGE :: "byte list \<Rightarrow> error + firmware_image"
  FLASH_SIZES :: "string \<Rightarrow> nat option"
  FLASH_FREQUENCY :: "string \<Rightarrow> nat option"
  get_erase_size :: "nat \<Rightarrow> nat \<Rightarrow> nat"
  STUB_CODE :: stub_code

definition parse_flash_size_arg :: "chip \<Rightarrow> string \<Rightarrow> error + nat" where
  "parse_flash_size_arg cls arg =
     (case FLASH_SIZES cls arg of
        Some v \<Rightarrow> Inr v
      | None \<Rightarrow> Inl (FatalError (UnknownFlashSize arg)))"

definition parse_flash_freq_arg :: "chip \<Rightarrow> string \<Rightarrow> error + nat" where
  "parse_flash_freq_arg cls arg =
     (case FLASH_FREQUENCY cls arg of
        Some v \<Rightarrow> Inr v
      | None \<Rightarrow> Inl (FatalError (UnknownFlashFreq arg)))"

text \<open>The fields of \<^verbatim>\<open>args\<close> read by the modelled code.\<close>

record args =
  flash_mode :: string
  flash_freq :: string
  flash_size :: string
  compress :: bool
  no_stub :: bool
  encrypt :: bool

section \<open>The flash-parameter patch\<close>

text \<open>The dictionary literal of \<^verbatim>\<open>_update_image_flash_params\<close>; a missing key is a
  \<^verbatim>\<open>KeyError\<close>.\<close>

definition flash_mode_code :: "string \<Rightarrow> error + nat" where
  "flash_mode_code m =
     (if m = ''qio'' then Inr 0 else if m = ''qout'' then Inr 1
      else if m = ''dio'' then Inr 2 else if m = ''dout'' then Inr 3 else Inl KeyError)"

text \<open>\<^verbatim>\<open>_update_image_flash_params\<close>. The two warnings are only printed. Every exception of
  the trial parse is caught and leaves the image as it is; an exception of the lookups or of
  \<^verbatim>\<open>struct.pack\<close> after it propagates.\<close>

definition update_image_flash_params :: "chip \<Rightarrow> nat \<Rightarrow> args \<Rightarrow> byte list \<Rightarrow> error + byte list" where
  "update_image_flash_params esp address args image_bytes =
     (if length image_bytes < 8 then Inr image_bytes
      else
        let magic = unat (image_bytes ! 0);
            image_mode = unat (image_bytes ! 2);
            flash_size_freq = unat (image_bytes ! 3)
        in
        if address \<noteq> BOOTLOADER_FLASH_OFFSET esp then Inr image_bytes
        else if flash_mode args = ''keep'' \<and> flash_freq args = ''keep'' \<and> flash_size args = ''keep''
          then Inr image_bytes
        else if magic \<noteq> ESP_IMAGE_MAGIC esp then Inr image_bytes
        else case ebind (BOOTLOADER_IMAGE esp image_bytes) verify of
            Inl e \<Rightarrow> Inr image_bytes
          | Inr u \<Rightarrow>
              ebind (if flash_mode args \<noteq> ''keep'' then flash_mode_code (flash_mode args)
                     else Inr image_mode) (\<lambda>mode.
              ebind (if flash_freq args \<noteq> ''keep'' then parse_flash_freq_arg esp (flash_freq args)
                     else Inr (flash_size_freq AND 0x0F)) (\<lambda>freq.
              ebind (if flash_size args \<noteq> ''keep'' then parse_flash_size_arg esp (flash_size args)
                     else Inr (flash_size_freq AND 0xF0)) (\<lambda>size.
              ebind (pack_field 1 mode) (\<lambda>b2.
              ebind (pack_field 1 (size + freq)) (\<lambda>b3.
                let flash_params = b2 @ b3 in
                if flash_params \<noteq> take 2 (drop 2 image_bytes)
                then Inr (take 2 image_bytes @ flash_params @ drop 4 image_bytes)
                else Inr image_bytes))))))"

section \<open>The ESP8266 ROM loader class\<close>

text \<open>\<^verbatim>\<open>ESP8266ROM.get_erase_size\<close>, the workaround for the erase bug of that ROM.\<close>

definition esp8266_get_erase_size :: "nat \<Rightarrow> nat \<Rightarrow> nat" where
  "esp8266_get_erase_size offset sz =
     (let sectors_per_block = 16;
          sector_size = 0x1000;
          num_sectors = (sz + sector_size - 1) div sector_size;
          start_sector = offset div sector_size;
          head_sectors0 = sectors_per_block - (start_sector mod sectors_per_block);
          head_sectors = (if num_sectors < head_sectors0 then num_sectors else head_sectors0)
      in if num_sectors < 2 * head_sectors then (num_sectors + 1) div 2 * sector_size
         else (num_sectors - head_sectors) * sector_size)"

text \<open>The class attributes of \<^verbatim>\<open>ESP8266ROM\<close>; the stub binary is a parameter. The class
  defines no \<^verbatim>\<open>FLASH_ENCRYPTED_WRITE_ALIGN\<close>.\<close>

definition esp8266_rom :: "stub_code \<Rightarrow> chip" where
  "esp8266_rom stub =
     \<lparr>rom = ESP8266ROM, IS_STUB = False, STATUS_BYTES_LENGTH = 2, FLASH_WRITE_SIZE = 0x400,
      ESP_RAM_BLOCK = 0x1800, FLASH_ENCRYPTED_WRITE_ALIGN = None, BOOTLOADER_FLASH_OFFSET = 0,
      ESP_IMAGE_MAGIC = 0xE9, BOOTLOADER_IMAGE = ESP8266ROMFirmwareImage,
      FLASH_SIZES = map_of [(''512KB'', 0x00), (''256KB'', 0x10), (''1MB'', 0x20), (''2MB'', 0x30),
        (''4MB'', 0x40), (''2MB-c1'', 0x50), (''4MB-c1'', 0x60), (''8MB'', 0x80), (''16MB'', 0x90)],
      FLASH_FREQUENCY = map_of [(''80m'', 0xF), (''40m'', 0x0), (''26m'', 0x1), (''20m'', 0x2)],
      get_erase_size = esp8266_get_erase_size, STUB_CODE = stub\<rparr>"

section \<open>The ESP32 ROM loader class\<close>

text \<open>The class attributes of \<^verbatim>\<open>ESP32ROM\<close> that the modelled code reads; the write block size
  and the RAM block size are inherited from \<^verbatim>\<open>ESPLoader\<close>. The image class
  \<^verbatim>\<open>ESP32FirmwareImage\<close> and the stub binary are parameters.\<close>

definition esp32_rom :: "(byte list \<Rightarrow> error + firmware_image) \<Rightarrow> stub_code \<Rightarrow> chip" where
  "esp32_rom image_class stub =
     \<lparr>rom = ESP32ROM, IS_STUB = False, STATUS_BYTES_LENGTH = 4, FLASH_WRITE_SIZE = 0x400,
      ESP_RAM_BLOCK = 0x1800, FLASH_ENCRYPTED_WRITE_ALIGN = Some 32,
      BOOTLOADER_FLASH_OFFSET = 0x1000, ESP_IMAGE_MAGIC = 0xE9, BOOTLOADER_IMAGE = image_class,
      FLASH_SIZES = map_of [(''1MB'', 0x00), (''2MB'', 0x10), (''4MB'', 0x20), (''8MB'', 0x30),
        (''16MB'', 0x40), (''32MB'', 0x50), (''64MB'', 0x60), (''128MB'', 0x70)],
      FLASH_FREQUENCY = map_of [(''80m'', 0xF), (''40m'', 0x0), (''26m'', 0x1), (''20m'', 0x2)],
      get_erase_size = (\<lambda>offset sz. sz), STUB_CODE = stub\<rparr>"

section \<open>The loader object\<close>

text \<open>The invocations of the flash and RAM methods of the loader, kept as a history so that
  properties can speak about which methods ran, in which order and with which arguments. The
  history is not read by any modelled code.\<close>

datatype call =
    FlashBegin nat nat bool
  | FlashBlock "byte list" nat
  | FlashEncryptBlock "byte list" nat
  | FlashFinish bool
  | FlashDeflBegin nat nat nat
  | FlashDeflBlock "byte list" nat
  | FlashDeflFinish bool
  | FlashMd5sum nat nat
  | ReadReg nat
  | MemBegin nat nat nat nat
  | MemBlock "byte list" nat
  | MemFinish nat

text \<open>The lines printed by the modelled code that matter here.\<close>

datatype message =
    WarnCompressEncrypt string
  | ErasingFlash
  | WarnEmptyFile string
  | HashVerified
  | Md5Mismatch
  | StubAlreadyRunning

text \<open>The state of a loader object and of the serial port behind it: the buffers handed to
  \<^verbatim>\<open>port.write\<close>, the SLIP generator with the port's pending input, and the instance
  attributes. Read timeouts are not part of the state: a read that times out is an empty chunk
  of the port.\<close>

record loader =
  tx :: "byte list list"
  slip_rd :: reader
  sync_stub_detected :: bool
  secure_download_mode :: bool
  calls :: "call list"
  printed :: "message list"

text \<open>A method: it returns a value or raises, and leaves a state behind in both cases.\<close>

type_synonym 'a action = "loader \<Rightarrow> (error + 'a) \<times> loader"

definition ret :: "'a \<Rightarrow> 'a action" where
  "ret v s = (Inr v, s)"

definition raise :: "error \<Rightarrow> 'a action" where
  "raise e s = (Inl e, s)"

definition sbind :: "'a action \<Rightarrow> ('a \<Rightarrow> 'b action) \<Rightarrow> 'b action" where
  "sbind m f s = (case m s of (Inl e, s') \<Rightarrow> (Inl e, s') | (Inr v, s') \<Rightarrow> f v s')"

definition lift :: "error + 'a \<Rightarrow> 'a action" where
  "lift r s = (r, s)"

definition record_call :: "call \<Rightarrow> unit action" where
  "record_call c s = (Inr (), s\<lparr>calls := calls s @ [c]\<rparr>)"

definition print :: "message \<Rightarrow> unit action" where
  "print m s = (Inr (), s\<lparr>printed := printed s @ [m]\<rparr>)"

text \<open>\<^verbatim>\<open>except FatalError\<close> also catches the subclass \<^verbatim>\<open>NotImplementedInROMError\<close>.\<close>

fun is_FatalError :: "error \<Rightarrow> bool" where
  "is_FatalError (FatalError m) = True"
| "is_FatalError NotImplementedInROMError = True"
| "is_FatalError e = False"

subsection \<open>Reading and writing packets\<close>

definition read :: "byte list action" where
  "read s = (case slip_next (slip_rd s) of (r, rd) \<Rightarrow> (r, s\<lparr>slip_rd := rd\<rparr>))"

definition "write" :: "byte list \<Rightarrow> unit action" where
  "write packet s = (Inr (), s\<lparr>tx := tx s @ [slip_encode packet]\<rparr>)"

text \<open>\<^verbatim>\<open>flush_input\<close> replaces the generator by a fresh one on the same port. What the
  driver drops from its input buffer is not modelled; the bytes the old generator had already
  taken from the port are lost with it.\<close>

definition flush_input :: "unit action" where
  "flush_input s = (Inr (), s\<lparr>slip_rd := slip_reader (port_rx (slip_rd s))\<rparr>)"

subsection \<open>Opcodes\<close>

definition ESP_FLASH_BEGIN :: byte where "ESP_FLASH_BEGIN = 0x02"
definition ESP_FLASH_DATA :: byte where "ESP_FLASH_DATA = 0x03"
definition ESP_FLASH_END :: byte where "ESP_FLASH_END = 0x04"
definition ESP_MEM_BEGIN :: byte where "ESP_MEM_BEGIN = 0x05"
definition ESP_SYNC :: byte where "ESP_SYNC = 0x08"
definition ESP_READ_REG :: byte where "ESP_READ_REG = 0x0A"
definition ESP_FLASH_DEFL_BEGIN :: byte where "ESP_FLASH_DEFL_BEGIN = 0x10"
definition ESP_FLASH_DEFL_DATA :: byte where "ESP_FLASH_DEFL_DATA = 0x11"
definition ESP_FLASH_DEFL_END :: byte where "ESP_FLASH_DEFL_END = 0x12"
definition ESP_SPI_FLASH_MD5 :: byte where "ESP_SPI_FLASH_MD5 = 0x13"
definition ESP_FLASH_ENCRYPT_DATA :: byte where "ESP_FLASH_ENCRYPT_DATA = 0xD4"
definition ROM_INVALID_RECV_MSG :: byte where "ROM_INVALID_RECV_MSG = 0x05"

subsection \<open>\<^verbatim>\<open>command\<close> and \<^verbatim>\<open>check_command\<close>\<close>

text \<open>\<^verbatim>\<open>struct.pack(b'<BBHI', 0x00, op, len(data), chk)\<close>.\<close>

definition pack_header :: "byte \<Rightarrow> nat \<Rightarrow> int \<Rightarrow> error + byte list" where
  "pack_header op len chk =
     ebind (pack_field 2 len) (\<lambda>l.
       if 0 \<le> chk \<and> chk < 2 ^ 32 then Inr ([0x00, op] @ l @ pack_le 4 (nat chk))
       else Inl StructError)"

text \<open>The loop \<^verbatim>\<open>for retry in range(100)\<close> with \<open>n\<close> iterations left. \<^verbatim>\<open>byte(data, i)\<close>
  past the end of \<^verbatim>\<open>data\<close> is an \<^verbatim>\<open>IndexError\<close>; the second operand of \<^verbatim>\<open>and\<close> is
  evaluated only when the first holds.\<close>

fun command_recv :: "nat \<Rightarrow> byte option \<Rightarrow> (nat \<times> byte list) action" where
  "command_recv 0 op s = (Inl (FatalError ResponseMismatch), s)"
| "command_recv (Suc n) op s =
     (case read s of
        (Inl e, s') \<Rightarrow> (Inl e, s')
      | (Inr p, s') \<Rightarrow>
          if length p < 8 then command_recv n op s'
          else
            let resp = p ! 0; op_ret = p ! 1; val = unpack_le (take 4 (drop 4 p)) in
            if resp \<noteq> 1 then command_recv n op s'
            else
              let data = drop 8 p in
              if op = None \<or> Some op_ret = op then (Inr (val, data), s')
              else if data = [] then (Inl IndexError, s')
              else if data ! 0 \<noteq> 0 then
                (if length data < 2 then (Inl IndexError, s')
                 else if data ! 1 = ROM_INVALID_RECV_MSG
                   then sbind flush_input (\<lambda>_. raise UnsupportedCommandError) s'
                 else command_recv n op s')
              else command_recv n op s')"

text \<open>\<^verbatim>\<open>command\<close> with \<^verbatim>\<open>wait_response=True\<close>, the only way the modelled callers use it.
  The timeout it sets on the port and restores is not modelled.\<close>

definition command :: "byte option \<Rightarrow> byte list \<Rightarrow> int \<Rightarrow> (nat \<times> byte list) action" where
  "command op data chk =
     sbind (case op of
              None \<Rightarrow> ret ()
            | Some opc \<Rightarrow> sbind (lift (pack_header opc (length data) chk))
                                (\<lambda>hdr. write (hdr @ data)))
       (\<lambda>_. command_recv 100 op)"

text \<open>What \<^verbatim>\<open>check_command\<close> returns: the body without the status bytes, or the
  \<^verbatim>\<open>val\<close> field of the reply header.\<close>

datatype reply = Body "byte list" | Val nat

text \<open>The slices \<^verbatim>\<open>data[-n:]\<close> and \<^verbatim>\<open>data[:-n]\<close>; for \<open>n = 0\<close> Python reads them as
  \<^verbatim>\<open>data[0:]\<close> and \<^verbatim>\<open>data[:0]\<close>.\<close>

definition last_bytes :: "nat \<Rightarrow> byte list \<Rightarrow> byte list" where
  "last_bytes n data = (if n = 0 then data else drop (length data - n) data)"

definition but_last_bytes :: "nat \<Rightarrow> byte list \<Rightarrow> byte list" where
  "but_last_bytes n data = (if n = 0 then [] else take (length data - n) data)"

definition check_command :: "chip \<Rightarrow> byte \<Rightarrow> byte list \<Rightarrow> int \<Rightarrow> reply action" where
  "check_command esp op data chk =
     sbind (command (Some op) data chk) (\<lambda>(val, data).
       if length data < STATUS_BYTES_LENGTH esp
         then raise (FatalError (ShortStatus (length data)))
       else
         let status_bytes = last_bytes (STATUS_BYTES_LENGTH esp) data in
         if status_bytes = [] then raise IndexError
         else if status_bytes ! 0 \<noteq> 0 then raise (FatalError (CommandFailed status_bytes))
         else if length data > STATUS_BYTES_LENGTH esp
           then ret (Body (but_last_bytes (STATUS_BYTES_LENGTH esp) data))
         else ret (Val val))"

subsection \<open>\<^verbatim>\<open>sync\<close> and \<^verbatim>\<open>read_reg\<close>\<close>

definition sync_payload :: "byte list" where
  "sync_payload = [0x07, 0x07, 0x12, 0x20] @ replicate 32 0x55"

text \<open>The loop \<^verbatim>\<open>for _ in range(7)\<close> of \<^verbatim>\<open>sync\<close>, with \<open>n\<close> iterations left.\<close>

fun sync_drain :: "nat \<Rightarrow> unit action" where
  "sync_drain 0 s = (Inr (), s)"
| "sync_drain (Suc n) s =
     (case command None [] 0 s of
        (Inl e, s') \<Rightarrow> (Inl e, s')
      | (Inr (val, d), s') \<Rightarrow>
          sync_drain n (s'\<lparr>sync_stub_detected := sync_stub_detected s' \<and> val = 0\<rparr>))"

definition sync :: "unit action" where
  "sync s =
     (case command (Some ESP_SYNC) sync_payload 0 s of
        (Inl e, s') \<Rightarrow> (Inl e, s')
      | (Inr (val, d), s') \<Rightarrow> sync_drain 7 (s'\<lparr>sync_stub_detected := (val = 0)\<rparr>))"

definition read_reg :: "nat \<Rightarrow> nat action" where
  "read_reg a =
     sbind (record_call (ReadReg a)) (\<lambda>_.
     sbind (lift (pack_I [a])) (\<lambda>payload.
     sbind (command (Some ESP_READ_REG) payload 0) (\<lambda>(val, data).
       if data = [] then raise IndexError
       else if data ! 0 \<noteq> 0 then raise (FatalError (ReadRegFailed a data))
       else ret val)))"

text \<open>The replies that \<^verbatim>\<open>sync\<close> waits for, written down apart from the flag: the
  \<^verbatim>\<open>val\<close> fields of the replies accepted by \<open>n\<close> successive calls of \<^verbatim>\<open>command()\<close>, and
  the \<^verbatim>\<open>val\<close> fields of the reply to the sync command and of the seven that follow.\<close>

fun drain_vals :: "nat \<Rightarrow> nat list action" where
  "drain_vals 0 s = (Inr [], s)"
| "drain_vals (Suc n) s =
     (case command None [] 0 s of
        (Inl e, s') \<Rightarrow> (Inl e, s')
      | (Inr (val, d), s') \<Rightarrow>
          (case drain_vals n s' of
             (Inl e, s'') \<Rightarrow> (Inl e, s'')
           | (Inr vals, s'') \<Rightarrow> (Inr (val # vals), s'')))"

definition sync_vals :: "nat list action" where
  "sync_vals s =
     (case command (Some ESP_SYNC) sync_payload 0 s of
        (Inl e, s') \<Rightarrow> (Inl e, s')
      | (Inr (val, d), s') \<Rightarrow>
          (case drain_vals 7 s' of
             (Inl e, s'') \<Rightarrow> (Inl e, s'')
           | (Inr vals, s'') \<Rightarrow> (Inr (val # vals), s'')))"

text \<open>A loader object right after its construction on a port with the given pending input.\<close>

definition new_loader :: "byte list list \<Rightarrow> loader" where
  "new_loader port =
     \<lparr>tx = [], slip_rd = slip_reader port, sync_stub_detected = False,
      secure_download_mode = False, calls = [], printed = []\<rparr>"

section \<open>RAM download and the stub\<close>

text \<open>\<^verbatim>\<open>try: ... except FatalError\<close>.\<close>

definition catch_fatal :: "'a action \<Rightarrow> (error \<Rightarrow> 'a action) \<Rightarrow> 'a action" where
  "catch_fatal m h s =
     (case m s of
        (Inl e, s') \<Rightarrow> if is_FatalError e then h e s' else (Inl e, s')
      | (Inr v, s') \<Rightarrow> (Inr v, s'))"

text \<open>The two address ranges that \<^verbatim>\<open>mem_begin\<close> compares with the load range, in the order
  of its loop: data, then text. Indexing the stub dictionary with a missing key is a
  \<^verbatim>\<open>KeyError\<close>.\<close>

definition stub_ranges :: "stub_code \<Rightarrow> error + (nat \<times> nat) list" where
  "stub_ranges stub =
     (case data_seg stub of
        None \<Rightarrow> Inl KeyError
      | Some d \<Rightarrow>
          (case text_seg stub of
             None \<Rightarrow> Inl KeyError
           | Some t \<Rightarrow> Inr [(data_start stub, data_start stub + length d),
                             (text_start stub, text_start stub + length t)]))"

fun check_overlap :: "nat \<Rightarrow> nat \<Rightarrow> (nat \<times> nat) list \<Rightarrow> error + unit" where
  "check_overlap load_start load_end [] = Inr ()"
| "check_overlap load_start load_end ((start, end) # ranges) =
     (if load_start < end \<and> load_end > start
      then Inl (FatalError (StubOverlap start end load_start load_end))
      else check_overlap load_start load_end ranges)"

definition mem_begin :: "chip \<Rightarrow> nat \<Rightarrow> nat \<Rightarrow> nat \<Rightarrow> nat \<Rightarrow> reply action" where
  "mem_begin esp sz blocks blocksize offset =
     sbind (record_call (MemBegin sz blocks blocksize offset)) (\<lambda>_.
     sbind (if IS_STUB esp
            then lift (ebind (stub_ranges (STUB_CODE esp)) (check_overlap offset (offset + sz)))
            else ret ()) (\<lambda>_.
     sbind (lift (pack_I [sz, blocks, blocksize, offset])) (\<lambda>params.
       check_command esp ESP_MEM_BEGIN params 0)))"









section \<open>The flash commands\<close>

definition flash_begin :: "chip \<Rightarrow> nat \<Rightarrow> nat \<Rightarrow> bool \<Rightarrow> nat action" where
  "flash_begin esp sz offset begin_rom_encrypted =
     sbind (record_call (FlashBegin sz offset begin_rom_encrypted)) (\<lambda>_.
       if FLASH_WRITE_SIZE esp = 0 then raise ZeroDivisionError
       else
         let num_blocks = (sz + FLASH_WRITE_SIZE esp - 1) div FLASH_WRITE_SIZE esp;
             erase_size = get_erase_size esp offset sz
         in
         sbind (lift (pack_I
            ([erase_size, num_blocks, FLASH_WRITE_SIZE esp, offset] @
             (if isinstance_any (rom esp)
                   [ESP32S2ROM, ESP32S3ROM, ESP32C3ROM, ESP32C6ROM, ESP32H2ROM, ESP32C2ROM]
                 \<and> \<not> IS_STUB esp
              then [if begin_rom_encrypted then 1 else 0] else [])))) (\<lambda>params.
         sbind (check_command esp ESP_FLASH_BEGIN params 0) (\<lambda>_. ret num_blocks)))"

text \<open>The retry loop shared by the three block-writing methods: \<^verbatim>\<open>attempts_left\<close> counts
  down from \<^verbatim>\<open>WRITE_BLOCK_ATTEMPTS - 1\<close>; only a \<^verbatim>\<open>FatalError\<close> is retried.\<close>

definition WRITE_BLOCK_ATTEMPTS :: nat where
  "WRITE_BLOCK_ATTEMPTS = 3"

fun block_attempts :: "chip \<Rightarrow> byte \<Rightarrow> byte list \<Rightarrow> nat \<Rightarrow> nat \<Rightarrow> unit action" where
  "block_attempts esp op data seq attempts_left s =
     (case sbind (lift (pack_I [length data, seq, 0, 0])) (\<lambda>hdr.
             check_command esp op (hdr @ data) (checksum data ESP_CHECKSUM_MAGIC)) s of
        (Inr v, s') \<Rightarrow> (Inr (), s')
      | (Inl e, s') \<Rightarrow>
          if is_FatalError e then
            (case attempts_left of
               0 \<Rightarrow> (Inl e, s')
             | Suc n \<Rightarrow> block_attempts esp op data seq n s')
          else (Inl e, s'))"

definition flash_block :: "chip \<Rightarrow> byte list \<Rightarrow> nat \<Rightarrow> unit action" where
  "flash_block esp data seq =
     sbind (record_call (FlashBlock data seq)) (\<lambda>_.
       block_attempts esp ESP_FLASH_DATA data seq (WRITE_BLOCK_ATTEMPTS - 1))"

definition flash_encrypt_block :: "chip \<Rightarrow> byte list \<Rightarrow> nat \<Rightarrow> unit action" where
  "flash_encrypt_block esp data seq =
     sbind (record_call (FlashEncryptBlock data seq)) (\<lambda>_.
       if isinstance_any (rom esp) [ESP32S2ROM, ESP32C3ROM, ESP32S3ROM, ESP32H2ROM, ESP32C2ROM]
            \<and> \<not> IS_STUB esp
       then flash_block esp data seq
       else block_attempts esp ESP_FLASH_ENCRYPT_DATA data seq (WRITE_BLOCK_ATTEMPTS - 1))"

text \<open>The decorator \<^verbatim>\<open>stub_and_esp32_function_only\<close>.\<close>

definition stub_and_esp32_function_only :: "chip \<Rightarrow> 'a action \<Rightarrow> 'a action" where
  "stub_and_esp32_function_only esp func =
     (if IS_STUB esp \<or> isinstance (rom esp) ESP32ROM then func
      else raise NotImplementedInROMError)"

definition flash_defl_begin :: "chip \<Rightarrow> nat \<Rightarrow> nat \<Rightarrow> nat \<Rightarrow> nat action" where
  "flash_defl_begin esp sz compsize offset =
     sbind (record_call (FlashDeflBegin sz compsize offset)) (\<lambda>_.
     stub_and_esp32_function_only esp
       (if FLASH_WRITE_SIZE esp = 0 then raise ZeroDivisionError
        else
          let num_blocks = (compsize + FLASH_WRITE_SIZE esp - 1) div FLASH_WRITE_SIZE esp;
              erase_blocks = (sz + FLASH_WRITE_SIZE esp - 1) div FLASH_WRITE_SIZE esp;
              write_size = (if IS_STUB esp then sz else erase_blocks * FLASH_WRITE_SIZE esp)
          in
          sbind (lift (pack_I
             ([write_size, num_blocks, FLASH_WRITE_SIZE esp, offset] @
              (if isinstance_any (rom esp)
                    [ESP32S2ROM, ESP32S3ROM, ESP32C3ROM, ESP32C6ROM, ESP32H2ROM, ESP32C2ROM]
                  \<and> \<not> IS_STUB esp
               then [0] else [])))) (\<lambda>params.
          sbind (check_command esp ESP_FLASH_DEFL_BEGIN params 0) (\<lambda>_. ret num_blocks))))"

definition flash_defl_block :: "chip \<Rightarrow> byte list \<Rightarrow> nat \<Rightarrow> unit action" where
  "flash_defl_block esp data seq =
     sbind (record_call (FlashDeflBlock data seq)) (\<lambda>_.
     stub_and_esp32_function_only esp
       (block_attempts esp ESP_FLASH_DEFL_DATA data seq (WRITE_BLOCK_ATTEMPTS - 1)))"

section \<open>\<^verbatim>\<open>write_flash\<close>\<close>

text \<open>The library functions that \<^verbatim>\<open>write_flash\<close> calls are parameters:
  \<^verbatim>\<open>hashlib.md5(...).hexdigest()\<close>, \<^verbatim>\<open>zlib.compress(..., 9)\<close> and
  \<^verbatim>\<open>bytes.decode("utf-8")\<close>.\<close>

record lib =
  md5_hexdigest :: "byte list \<Rightarrow> string"
  zlib_compress :: "byte list \<Rightarrow> byte list"
  utf8_decode :: "byte list \<Rightarrow> error + string"

text \<open>\<^verbatim>\<open>hexify(res).lower()\<close>: two lower-case hexadecimal digits for every byte.\<close>

definition hex_digit :: "nat \<Rightarrow> char" where
  "hex_digit n = ''0123456789abcdef'' ! n"

definition hexify_lower :: "byte list \<Rightarrow> string" where
  "hexify_lower bs = concat (map (\<lambda>b. [hex_digit (unat b div 16), hex_digit (unat b mod 16)]) bs)"

definition flash_md5sum :: "lib \<Rightarrow> chip \<Rightarrow> nat \<Rightarrow> nat \<Rightarrow> string action" where
  "flash_md5sum lb esp a sz =
     sbind (record_call (FlashMd5sum a sz)) (\<lambda>_.
     stub_and_esp32_function_only esp
       (sbind (lift (pack_I [a, sz, 0, 0])) (\<lambda>payload.
        sbind (check_command esp ESP_SPI_FLASH_MD5 payload 0) (\<lambda>res.
          case res of
            Val v \<Rightarrow> raise TypeError
          | Body b \<Rightarrow>
              if length b = 32 then lift (utf8_decode lb b)
              else if length b = 16 then ret (hexify_lower b)
              else raise (FatalError Md5Unexpected)))))"

text \<open>An open file given on the command line: its name and its content.\<close>

record arg_file =
  name :: string
  content :: "byte list"

definition CHIP_DETECT_MAGIC_REG_ADDR :: nat where
  "CHIP_DETECT_MAGIC_REG_ADDR = 0x40001000"

text \<open>\<^verbatim>\<open>pad_to(argfile.read(), esp.FLASH_ENCRYPTED_WRITE_ALIGN if encrypted else 4)\<close>. A class
  without the attribute gives an \<^verbatim>\<open>AttributeError\<close>, an alignment of zero a
  \<^verbatim>\<open>ZeroDivisionError\<close>.\<close>

definition padded_image :: "chip \<Rightarrow> bool \<Rightarrow> byte list \<Rightarrow> error + byte list" where
  "padded_image esp encrypted data =
     (if encrypted then
        (case FLASH_ENCRYPTED_WRITE_ALIGN esp of
           None \<Rightarrow> Inl AttributeError
         | Some a \<Rightarrow> if a = 0 then Inl ZeroDivisionError else Inr (pad_to data a 0xFF))
      else Inr (pad_to data 4 0xFF))"

text \<open>The loop \<^verbatim>\<open>while len(image) > 0\<close>. The decompressor that runs beside a compressed
  write only feeds the timeouts and the progress line, which are not modelled. With a block
  size of zero the loop is never entered, because \<^verbatim>\<open>flash_begin\<close> and
  \<^verbatim>\<open>flash_defl_begin\<close> have divided by it before.\<close>

function write_blocks :: "chip \<Rightarrow> bool \<Rightarrow> bool \<Rightarrow> byte list \<Rightarrow> nat \<Rightarrow> unit action" where
  "write_blocks esp compr encrypted image_bytes seq =
     (if image_bytes = [] then ret ()
      else if FLASH_WRITE_SIZE esp = 0 then raise ZeroDivisionError
      else
        let block = take (FLASH_WRITE_SIZE esp) image_bytes in
        sbind (if compr then flash_defl_block esp block seq
               else
                 let block = block @ replicate (FLASH_WRITE_SIZE esp - length block) 0xFF in
                 if encrypted then flash_encrypt_block esp block seq
                 else flash_block esp block seq)
          (\<lambda>_. write_blocks esp compr encrypted (drop (FLASH_WRITE_SIZE esp) image_bytes) (seq + 1)))"
  by pat_completeness auto
termination
  by (relation "measure (\<lambda>(esp, compr, encrypted, image_bytes, seq). length image_bytes)") auto

declare write_blocks.simps [simp del]

text \<open>The first half of the body of the loop over the files, for a buffer that is already
  padded and patched: begin, blocks and, on a stub, the closing register read.\<close>

definition write_image :: "lib \<Rightarrow> chip \<Rightarrow> bool \<Rightarrow> bool \<Rightarrow> nat \<Rightarrow> byte list \<Rightarrow> unit action" where
  "write_image lb esp compr encrypted address image_bytes =
     (let uncsize = length image_bytes in
      sbind (if compr then
               (let compressed = zlib_compress lb image_bytes in
                sbind (flash_defl_begin esp uncsize (length compressed) address)
                  (\<lambda>blocks. ret compressed))
             else
               sbind (flash_begin esp uncsize address encrypted) (\<lambda>blocks. ret image_bytes))
        (\<lambda>to_send.
      sbind (write_blocks esp compr encrypted to_send 0) (\<lambda>_.
        if IS_STUB esp then sbind (read_reg CHIP_DETECT_MAGIC_REG_ADDR) (\<lambda>_. ret ())
        else ret ())))"

text \<open>The second half: the comparison of the digest computed on the device with the local
  one. \<^verbatim>\<open>NotImplementedInROMError\<close> is the one exception that is passed over.\<close>

definition verify_md5 :: "lib \<Rightarrow> chip \<Rightarrow> nat \<Rightarrow> nat \<Rightarrow> string \<Rightarrow> unit action" where
  "verify_md5 lb esp address uncsize calcmd5 s =
     (case sbind (flash_md5sum lb esp address uncsize) (\<lambda>res.
             if res \<noteq> calcmd5
             then sbind (print Md5Mismatch) (\<lambda>_. raise (FatalError Md5DoesNotMatch))
             else print HashVerified) s of
        (Inl e, s') \<Rightarrow> if e = NotImplementedInROMError then (Inr (), s') else (Inl e, s')
      | (Inr u, s') \<Rightarrow> (Inr u, s'))"

text \<open>The body of the loop \<^verbatim>\<open>for address, argfile, encrypted in all_files\<close>;
  \<^verbatim>\<open>args.compress\<close> is the value after the defaulting at the top of \<^verbatim>\<open>write_flash\<close>.\<close>

definition write_flash_file :: "lib \<Rightarrow> chip \<Rightarrow> args \<Rightarrow> nat \<times> arg_file \<times> bool \<Rightarrow> unit action" where
  "write_flash_file lb esp args = (\<lambda>(address, argfile, encrypted).
     sbind (if compress args \<and> encrypted then print (WarnCompressEncrypt (name argfile))
            else ret ()) (\<lambda>_.
     let compr = (if compress args \<and> encrypted then False else compress args) in
     sbind (if no_stub args then print ErasingFlash else ret ()) (\<lambda>_.
     sbind (lift (padded_image esp encrypted (content argfile))) (\<lambda>padded.
       if padded = [] then print (WarnEmptyFile (name argfile))
       else
         sbind (lift (update_image_flash_params esp address args padded)) (\<lambda>image_bytes.
         let calcmd5 = md5_hexdigest lb image_bytes;
             uncsize = length image_bytes
         in
         sbind (write_image lb esp compr encrypted address image_bytes) (\<lambda>_ s.
           if \<not> encrypted \<and> \<not> secure_download_mode s
           then verify_md5 lb esp address uncsize calcmd5 s
           else (Inr (), s)))))))"

text \<open>The list \<^verbatim>\<open>all_files\<close> and the loop over it. \<^verbatim>\<open>sorted\<close> is stable.\<close>

definition all_files :: "bool \<Rightarrow> (nat \<times> arg_file) list \<Rightarrow> (nat \<times> arg_file) list option
    \<Rightarrow> (nat \<times> arg_file \<times> bool) list" where
  "all_files enc addr_filename encrypt_files =
     (let plain = map (\<lambda>(offs, f). (offs, f, enc)) addr_filename in
      case encrypt_files of
        None \<Rightarrow> plain
      | Some fs \<Rightarrow> sort_key fst (plain @ map (\<lambda>(offs, f). (offs, f, True)) fs))"

fun write_flash_files :: "lib \<Rightarrow> chip \<Rightarrow> args \<Rightarrow> (nat \<times> arg_file \<times> bool) list \<Rightarrow> unit action" where
  "write_flash_files lb esp args [] = ret ()"
| "write_flash_files lb esp args (f # fs) =
     sbind (write_flash_file lb esp args f) (\<lambda>_. write_flash_files lb esp args fs)"

text \<open>The blocks that the loop of \<^verbatim>\<open>write_flash\<close> cuts from an uncompressed buffer, the
  last one filled up with 0xFF, written down apart from the loader.\<close>

function padded_blocks :: "nat \<Rightarrow> byte list \<Rightarrow> byte list list" where
  "padded_blocks bs xs =
     (if xs = [] \<or> bs = 0 then []
      else (take bs xs @ replicate (bs - length (take bs xs)) 0xFF) # padded_blocks bs (drop bs xs))"
  by pat_completeness auto
termination
  by (relation "measure (\<lambda>(bs, xs). length xs)") auto

declare padded_blocks.simps [simp del]


section \<open>Observations on the state\<close>

text \<open>A method keeps an observation of the state when the observation is the same before and
  after it, whatever it returns or raises. An observation is blind to the port when writing,
  reading and printing do not change it.\<close>

definition keeps :: "(loader \<Rightarrow> 'x) \<Rightarrow> 'a action \<Rightarrow> bool" where
  "keeps g m = (\<forall>s. g (snd (m s)) = g s)"

definition port_blind :: "(loader \<Rightarrow> 'x) \<Rightarrow> bool" where
  "port_blind g = (\<forall>s a b c. g (s\<lparr>tx := a\<rparr>) = g s \<and> g (s\<lparr>slip_rd := b\<rparr>) = g s
      \<and> g (s\<lparr>printed := c\<rparr>) = g s)"

text \<open>The deflate calls, the calls of the uncompressed write path, and the methods that add
  to the call history only calls of a given kind.\<close>

fun is_defl :: "call \<Rightarrow> bool" where
  "is_defl (FlashDeflBegin sz csz offset) = True"
| "is_defl (FlashDeflBlock d q) = True"
| "is_defl (FlashDeflFinish r) = True"
| "is_defl c = False"

fun is_plain_write :: "call \<Rightarrow> bool" where
  "is_plain_write (FlashBegin sz offset e) = True"
| "is_plain_write (FlashBlock d q) = True"
| "is_plain_write (FlashEncryptBlock d q) = True"
| "is_plain_write c = False"

definition emits :: "(call \<Rightarrow> bool) \<Rightarrow> 'a action \<Rightarrow> bool" where
  "emits Q m = (\<forall>s. \<exists>cs. calls (snd (m s)) = calls s @ cs \<and> list_all Q cs)"

section \<open>A device that acknowledges\<close>

text \<open>The reply of a device that accepts a command: the response marker, the opcode echo, the
  length of what follows the header, the value 0, the body, and status bytes that are all zero.\<close>

definition ok_reply :: "nat \<Rightarrow> byte \<Rightarrow> byte list \<Rightarrow> byte list" where
  "ok_reply status_len op body =
     [1, op] @ pack_le 2 (length body + status_len) @ [0, 0, 0, 0] @ body @ replicate status_len 0"

text \<open>The generator is between two packets and the given chunks are the pending input of the
  port.\<close>

definition ready :: "loader \<Rightarrow> byte list list \<Rightarrow> bool" where
  "ready s port = (slip_rd s = idle_reader (successful_slip (slip (slip_rd s))) port)"

section \<open>Concrete inputs\<close>

definition stub0 :: stub_code where
  "stub0 = \<lparr>text_start = 0, text_seg = None, data_start = 0, data_seg = None, entry = 0\<rparr>"

text \<open>A 16-byte version 1 image without segments: magic, segment count 0, flash mode 0 (qio),
  size and frequency byte 0x20, entry point 0, padding, checksum byte 0xEF.\<close>

definition boot16 :: "byte list" where
  "boot16 = [0xE9, 0, 0, 0x20, 0, 0, 0, 0, 0, 0, 0, 0, 0, 0, 0, 0xEF]"

definition args_dio :: args where
  "args_dio = \<lparr>flash_mode = ''dio'', flash_freq = ''keep'', flash_size = ''keep'',
     compress = False, no_stub = False, encrypt = False\<rparr>"

text \<open>Two 10-byte replies to the sync command with opcode echo 0x08, payload length 2, value 0
  and two zero status bytes. The first starts with the byte 0, the second with the byte 1 that
  marks a response.\<close>

definition resp_status0 :: "byte list" where
  "resp_status0 = [0x00, 0x08, 0x02, 0x00, 0, 0, 0, 0, 0, 0]"

definition resp_stub_ok :: "byte list" where
  "resp_stub_ok = [0x01, 0x08, 0x02, 0x00, 0, 0, 0, 0, 0, 0]"

text \<open>Library functions for the concrete runs: the compressor is the identity and the decoder
  of UTF-8 rejects every input.\<close>

definition lib0 :: lib where
  "lib0 = \<lparr>md5_hexdigest = (\<lambda>b. hexify_lower (take 16 b)), zlib_compress = (\<lambda>b. b),
     utf8_decode = (\<lambda>b. Inl UnicodeDecodeError)\<rparr>"


definition args_compress :: args where
  "args_compress = \<lparr>flash_mode = ''keep'', flash_freq = ''keep'', flash_size = ''keep'',
     compress = True, no_stub = False, encrypt = False\<rparr>"

definition empty_bin :: arg_file where
  "empty_bin = \<lparr>name = ''empty.bin'', content = []\<rparr>"

definition app_bin :: arg_file where
  "app_bin = \<lparr>name = ''app.bin'', content = [1, 2, 3, 4]\<rparr>"

text \<open>Text as the bytes of its ASCII codes, and the decoder of UTF-8 restricted to ASCII.\<close>

definition ascii_bytes :: "string \<Rightarrow> byte list" where
  "ascii_bytes str = map (\<lambda>c. of_nat (of_char c)) str"

definition ascii_decode :: "byte list \<Rightarrow> error + string" where
  "ascii_decode bs =
     (if list_all (\<lambda>b. unat b < 128) bs then Inr (map (\<lambda>b. char_of (unat b)) bs)
      else Inl UnicodeDecodeError)"

text \<open>Library functions for the runs that reach the MD5 comparison: the digest is a stand-in
  (the first 16 bytes in hexadecimal), the compressor is the identity.\<close>

definition lib1 :: lib where
  "lib1 = \<lparr>md5_hexdigest = (\<lambda>b. hexify_lower (take 16 b)), zlib_compress = (\<lambda>b. b),
     utf8_decode = ascii_decode\<rparr>"

text \<open>An image class whose constructor rejects every file; the concrete runs below write
  away from the bootloader offset and never call it.\<close>

definition unparsed_image :: "byte list \<Rightarrow> error + firmware_image" where
  "unparsed_image b = Inl (FatalError (InvalidMagic 0))"

definition data_bin :: arg_file where
  "data_bin = \<lparr>name = ''data.bin'',
     content = [1, 2, 3, 4, 5, 6, 7, 8, 9, 10, 11, 12, 13, 14, 15, 16]\<rparr>"

text \<open>Two ports behind an ESP32 ROM loader (four status bytes). The first acknowledges a
  \<^verbatim>\<open>flash_begin\<close> and one encrypted block. The second acknowledges a
  \<^verbatim>\<open>flash_defl_begin\<close> and one compressed block and then answers the MD5 command with 32
  hexadecimal digits.\<close>

definition encrypted_port :: "byte list list" where
  "encrypted_port =
     [slip_encode (ok_reply 4 ESP_FLASH_BEGIN []),
      slip_encode (ok_reply 4 ESP_FLASH_ENCRYPT_DATA [])]"

definition deflate_port :: "byte list list" where
  "deflate_port =
     [slip_encode (ok_reply 4 ESP_FLASH_DEFL_BEGIN []),
      slip_encode (ok_reply 4 ESP_FLASH_DEFL_DATA []),
      slip_encode (ok_reply 4 ESP_SPI_FLASH_MD5 (ascii_bytes ''0102030405060708090a0b0c0d0e0f10''))]"

text \<open>Scenario C: a file of 10,000 bytes, and a port behind an ESP32 ROM loader (block size
  1024) that acknowledges a \<^verbatim>\<open>flash_begin\<close> and ten blocks and then answers the MD5 command
  with the digest of the file in hexadecimal digits.\<close>

definition scenario_c_bin :: arg_file where
  "scenario_c_bin = \<lparr>name = ''firmware.bin'', content = replicate 10000 0x55\<rparr>"

definition scenario_c_port :: "byte list list" where
  "scenario_c_port =
     slip_encode (ok_reply 4 ESP_FLASH_BEGIN []) #
     replicate 10 (slip_encode (ok_reply 4 ESP_FLASH_DATA [])) @
     [slip_encode (ok_reply 4 ESP_SPI_FLASH_MD5
        (ascii_bytes (md5_hexdigest lib1 (content scenario_c_bin))))]"



section \<open>Properties of the framing\<close>

lemma replace_byte_Nil:
  "replace_byte old new [] = []"
  by (simp add: replace_byte_def)

lemma replace_byte_Cons:
  "replace_byte old new (x # xs) = (if x = old then new else [x]) @ replace_byte old new xs"
  by (simp add: replace_byte_def)

lemma slip_bytes_escaped:
  "slip_bytes \<lparr>partial_packet = Some p, in_escape = False, successful_slip = s\<rparr>
     (replace_byte 0xC0 [0xDB, 0xDC] (replace_byte 0xDB [0xDB, 0xDD] b) @ rest) =
   slip_bytes \<lparr>partial_packet = Some (p @ b), in_escape = False, successful_slip = s\<rparr> rest"
proof (induction b arbitrary: p)
  case Nil
  show ?case by (simp add: replace_byte_Nil)
next
  case (Cons x xs)
  consider (esc) "x = 0xDB" | (delim) "x = 0xC0" | (plain) "x \<noteq> 0xDB" "x \<noteq> 0xC0"
    by blast
  then show ?case
  proof cases
    case esc
    then show ?thesis
      using Cons.IH [of "p @ [0xDB]"] by (simp add: replace_byte_Cons)
  next
    case delim
    then show ?thesis
      using Cons.IH [of "p @ [0xC0]"] by (simp add: replace_byte_Cons)
  next
    case plain
    then show ?thesis
      using Cons.IH [of "p @ [x]"] by (simp add: replace_byte_Cons)
  qed
qed

lemma slip_bytes_frame:
  "slip_bytes \<lparr>partial_packet = None, in_escape = False, successful_slip = s\<rparr>
     (slip_encode b @ rest) =
   Yield b \<lparr>partial_packet = None, in_escape = False, successful_slip = True\<rparr> rest"
proof -
  have "slip_bytes \<lparr>partial_packet = None, in_escape = False, successful_slip = s\<rparr>
          (slip_encode b @ rest) =
        slip_bytes \<lparr>partial_packet = Some [], in_escape = False, successful_slip = s\<rparr>
          (replace_byte 0xC0 [0xDB, 0xDC] (replace_byte 0xDB [0xDB, 0xDD] b) @ ([0xC0] @ rest))"
    by (simp add: slip_encode_def)
  also have "\<dots> = slip_bytes \<lparr>partial_packet = Some ([] @ b), in_escape = False,
      successful_slip = s\<rparr> ([0xC0] @ rest)"
    by (rule slip_bytes_escaped)
  also have "\<dots> = Yield b \<lparr>partial_packet = None, in_escape = False, successful_slip = True\<rparr> rest"
    by simp
  finally show ?thesis .
qed

lemma slip_encode_not_Nil:
  "slip_encode b \<noteq> []"
  by (simp add: slip_encode_def)

text \<open>What one \<^verbatim>\<open>read()\<close> does when the next chunk of the port is one whole frame.\<close>

lemma slip_next_frame:
  assumes "\<not> dead r" and "read_bytes r = []"
    and "slip r = \<lparr>partial_packet = None, in_escape = False, successful_slip = s\<rparr>"
    and "port_rx r = slip_encode b # cs"
  shows "slip_next r =
     (Inr b, r\<lparr>port_rx := cs, read_bytes := [],
        slip := \<lparr>partial_packet = None, in_escape = False, successful_slip = True\<rparr>\<rparr>)"
proof -
  have "slip_bytes \<lparr>partial_packet = None, in_escape = False, successful_slip = s\<rparr> (slip_encode b)
      = Yield b \<lparr>partial_packet = None, in_escape = False, successful_slip = True\<rparr> []"
    using slip_bytes_frame [of s b "[]"] by simp
  then show ?thesis
    using assms by (simp add: slip_next_def slip_encode_not_Nil)
qed

text \<open>C1. Framing round-trip: for every byte sequence \<open>b\<close>, the frame that \<^verbatim>\<open>write\<close>
  builds for \<open>b\<close>, read back through \<^verbatim>\<open>slip_reader\<close>, is decoded to exactly \<open>b\<close>, and it
  is the only payload: the following read finds the stream stopped.\<close>

theorem slip_roundtrip:
  "fst (slip_next (slip_reader [slip_encode b])) = Inr b \<and>
   fst (slip_next (snd (slip_next (slip_reader [slip_encode b])))) = Inl (FatalError StreamStopped)"
proof -
  have first: "slip_next (slip_reader [slip_encode b]) =
     (Inr b, (slip_reader [slip_encode b])\<lparr>port_rx := [], read_bytes := [],
        slip := \<lparr>partial_packet = None, in_escape = False, successful_slip = True\<rparr>\<rparr>)"
    using slip_next_frame [of "slip_reader [slip_encode b]" False b "[]"]
    by (simp add: slip_reader_def)
  show ?thesis
    unfolding first by (simp add: slip_next_def slip_reader_def stop_msg_def)
qed

text \<open>C6 as stated fails: the encoding of the bytes C0 DB C0 is accepted by the decoder.\<close>

theorem scenario_a_accepted:
  "fst (slip_next (slip_reader [slip_encode [0xC0, 0xDB, 0xC0]])) = Inr [0xC0, 0xDB, 0xC0]"
  by (simp add: slip_next_def slip_reader_def slip_encode_def replace_byte_def)

text \<open>C6, amended. The bytes C0 DB C0 are encoded to the frame C0 DB DC DB DD DB DC C0, in
  which no delimiter is left unescaped inside the payload, and decoding that frame gives the
  three bytes back. It is the sequence C0 DB C0 itself, fed to the decoder without encoding,
  that is rejected: the delimiter after the escape byte is an invalid escape code.\<close>

theorem scenario_a_amended:
  "slip_encode [0xC0, 0xDB, 0xC0] = [0xC0, 0xDB, 0xDC, 0xDB, 0xDD, 0xDB, 0xDC, 0xC0] \<and>
   fst (slip_next (slip_reader [[0xC0, 0xDB, 0xDC, 0xDB, 0xDD, 0xDB, 0xDC, 0xC0]]))
     = Inr [0xC0, 0xDB, 0xC0] \<and>
   fst (slip_next (slip_reader [[0xC0, 0xDB, 0xC0]])) = Inl (FatalError (InvalidEscape 0xC0))"
  by (simp add: slip_next_def slip_reader_def slip_encode_def replace_byte_def)

section \<open>Properties of the checksum\<close>

lemma checksum_xor:
  "checksum data state = state XOR checksum data 0"
proof (induction data arbitrary: state)
  case Nil
  show ?case by simp
next
  case (Cons b data)
  have "checksum (b # data) state = (state XOR uint b) XOR checksum data 0"
    using Cons.IH [of "state XOR uint b"] by simp
  also have "\<dots> = state XOR (uint b XOR checksum data 0)"
    by (simp add: xor.assoc)
  also have "\<dots> = state XOR checksum (b # data) 0"
    using Cons.IH [of "0 XOR uint b"] by simp
  finally show ?case .
qed

text \<open>C3. The checksum is a function of the data and the seed alone, and folding the same
  data a second time, starting from the first result, gives the seed back.\<close>

theorem checksum_involution:
  "checksum data (checksum data seed) = seed"
proof -
  have "checksum data (checksum data seed) = (seed XOR checksum data 0) XOR checksum data 0"
    using checksum_xor [of data "checksum data seed"] checksum_xor [of data seed] by simp
  then show ?thesis
    by (simp add: xor.assoc)
qed

section \<open>Properties of firmware images\<close>

text \<open>C8. Segment count bound: \<^verbatim>\<open>verify\<close> raises the segment-count error exactly for an
  image that holds more than 16 segments, and returns normally exactly for an image with at
  most 16.\<close>

theorem verify_segment_bound:
  "(verify img = Inl (FatalError (SegmentCount (length (segments img)))))
      = (16 < length (segments img)) \<and>
   (verify img = Inr ()) = (length (segments img) \<le> 16)"
  by (auto simp add: verify_def)

text \<open>An image with 17 segments is rejected by \<^verbatim>\<open>verify\<close>, one with 16 passes.\<close>

theorem verify_segment_bound_witness:
  "verify \<lparr>segments = replicate 17 (ImageSegment 0 [] None), entrypoint = 0,
      image_flash_mode = 0, image_flash_size_freq = 0, image_checksum = 0\<rparr>
     = Inl (FatalError (SegmentCount 17)) \<and>
   verify \<lparr>segments = replicate 16 (ImageSegment 0 [] None), entrypoint = 0,
      image_flash_mode = 0, image_flash_size_freq = 0, image_checksum = 0\<rparr> = Inr ()"
  using verify_segment_bound [of "\<lparr>segments = replicate 17 (ImageSegment 0 [] None),
      entrypoint = 0, image_flash_mode = 0, image_flash_size_freq = 0, image_checksum = 0\<rparr>"]
    verify_segment_bound [of "\<lparr>segments = replicate 16 (ImageSegment 0 [] None),
      entrypoint = 0, image_flash_mode = 0, image_flash_size_freq = 0, image_checksum = 0\<rparr>"]
  by simp

section \<open>Properties of the flash-parameter patch\<close>

lemma length_pack_le:
  "length (pack_le n v) = n"
  by (induction n arbitrary: v) simp_all

lemma pack_field_length:
  "pack_field n v = Inr b \<Longrightarrow> length b = n"
  by (auto simp add: pack_field_def length_pack_le split: if_splits)

lemma ebind_Inr:
  "ebind m f = Inr r \<Longrightarrow> \<exists>v. m = Inr v \<and> f v = Inr r"
  by (cases m) (simp_all add: ebind_def)

lemma splice_frame:
  assumes "length b = 2" and "4 \<le> length xs"
  shows "length (take 2 xs @ b @ drop 4 xs) = length xs"
    and "i < length xs \<Longrightarrow> i \<noteq> 2 \<Longrightarrow> i \<noteq> 3 \<Longrightarrow> (take 2 xs @ b @ drop 4 xs) ! i = xs ! i"
proof -
  show "length (take 2 xs @ b @ drop 4 xs) = length xs"
    using assms by simp
  assume i: "i < length xs" "i \<noteq> 2" "i \<noteq> 3"
  show "(take 2 xs @ b @ drop 4 xs) ! i = xs ! i"
  proof (cases "i < 2")
    case True
    then show ?thesis
      using assms by (simp add: nth_append)
  next
    case False
    with i have "4 \<le> i" by simp
    then have "\<not> i - 2 < 2" and "i - 2 - 2 = i - 4" by simp_all
    then show ?thesis
      using assms i \<open>4 \<le> i\<close> by (simp add: nth_append)
  qed
qed

text \<open>C7. Frame property of the flash-parameter patch: whenever the function returns a buffer
  that is not the input buffer, the address is the bootloader offset of the chip, the first byte
  is the image magic, the buffer loads and verifies as an image of the chip, and the result has
  the length of the input and agrees with it at every index other than 2 and 3.\<close>

theorem update_image_flash_params_frame:
  assumes "update_image_flash_params esp address args image_bytes = Inr r"
  shows "r = image_bytes \<or>
     (address = BOOTLOADER_FLASH_OFFSET esp \<and>
      unat (image_bytes ! 0) = ESP_IMAGE_MAGIC esp \<and>
      (\<exists>img. BOOTLOADER_IMAGE esp image_bytes = Inr img \<and> verify img = Inr ()) \<and>
      length r = length image_bytes \<and>
      (\<forall>i < length image_bytes. i \<noteq> 2 \<longrightarrow> i \<noteq> 3 \<longrightarrow> r ! i = image_bytes ! i))"
proof (cases "r = image_bytes")
  case True
  then show ?thesis by simp
next
  case False
  from assms False have len: "8 \<le> length image_bytes"
    by (simp add: update_image_flash_params_def split: if_splits)
  from assms False len have addr: "address = BOOTLOADER_FLASH_OFFSET esp"
    by (simp add: update_image_flash_params_def Let_def split: if_splits)
  from assms False len addr have magic: "unat (image_bytes ! 0) = ESP_IMAGE_MAGIC esp"
    by (simp add: update_image_flash_params_def Let_def split: if_splits)
  from assms False len addr magic
  obtain u where valid: "ebind (BOOTLOADER_IMAGE esp image_bytes) verify = Inr u"
    by (cases "ebind (BOOTLOADER_IMAGE esp image_bytes) verify")
      (simp_all add: update_image_flash_params_def Let_def split: if_splits)
  then obtain img where img: "BOOTLOADER_IMAGE esp image_bytes = Inr img" "verify img = Inr ()"
    by (auto dest: ebind_Inr)
  from assms False len addr magic valid
  obtain b2 b3 mode sf where packed: "pack_field 1 mode = Inr b2" "pack_field 1 sf = Inr b3"
    and r: "r = take 2 image_bytes @ (b2 @ b3) @ drop 4 image_bytes"
    by (auto simp add: update_image_flash_params_def Let_def
        split: if_splits dest!: ebind_Inr)
  from packed have "length (b2 @ b3) = 2"
    by (simp add: pack_field_length)
  with len r have "length r = length image_bytes"
    and "\<forall>i < length image_bytes. i \<noteq> 2 \<longrightarrow> i \<noteq> 3 \<longrightarrow> r ! i = image_bytes ! i"
    using splice_frame [of "b2 @ b3" image_bytes] by simp_all
  with addr magic img show ?thesis by blast
qed

lemma boot16_loads:
  "ESP8266ROMFirmwareImage boot16 = Inr \<lparr>segments = [], entrypoint = 0,
     image_flash_mode = 0, image_flash_size_freq = 0x20, image_checksum = 0xEF\<rparr>"
  by (simp add: ESP8266ROMFirmwareImage_def boot16_def file_read_def Let_def ebind_def
      read_checksum_def verify_def)

lemma boot16_patched:
  "update_image_flash_params (esp8266_rom stub0) 0 args_dio boot16
     = Inr [0xE9, 0, 2, 0x20, 0, 0, 0, 0, 0, 0, 0, 0, 0, 0, 0, 0xEF]"
  by (simp add: update_image_flash_params_def esp8266_rom_def boot16_loads args_dio_def
      ebind_def verify_def flash_mode_code_def pack_field_def Let_def) (simp add: boot16_def)

text \<open>The patch at work: on the ESP8266 ROM class, at offset 0, the flash mode \<open>dio\<close> is
  written into byte 2 of a valid 16-byte image, and nothing else changes.\<close>

theorem update_image_flash_params_frame_witness:
  "update_image_flash_params (esp8266_rom stub0) 0 args_dio boot16
     = Inr [0xE9, 0, 2, 0x20, 0, 0, 0, 0, 0, 0, 0, 0, 0, 0, 0, 0xEF] \<and>
   [0xE9, 0, 2, 0x20, 0, 0, 0, 0, 0, 0, 0, 0, 0, 0, 0, 0xEF] \<noteq> boot16 \<and>
   unat (boot16 ! 0) = ESP_IMAGE_MAGIC (esp8266_rom stub0) \<and>
   (\<exists>img. BOOTLOADER_IMAGE (esp8266_rom stub0) boot16 = Inr img \<and> verify img = Inr ())"
  using update_image_flash_params_frame [OF boot16_patched] boot16_patched
  by (simp add: boot16_def)

section \<open>Properties of \<^verbatim>\<open>command\<close> and \<^verbatim>\<open>sync\<close>\<close>

lemma read_flag:
  "read (s\<lparr>sync_stub_detected := b\<rparr>) = map_prod id (\<lambda>t. t\<lparr>sync_stub_detected := b\<rparr>) (read s)"
  by (simp add: read_def split: prod.splits)

lemma command_recv_flag:
  "command_recv n op (s\<lparr>sync_stub_detected := b\<rparr>)
     = map_prod id (\<lambda>t. t\<lparr>sync_stub_detected := b\<rparr>) (command_recv n op s)"
proof (induction n arbitrary: s)
  case 0
  show ?case by simp
next
  case (Suc n)
  obtain r s' where rd: "read s = (r, s')" by (cases "read s")
  then have rd': "read (s\<lparr>sync_stub_detected := b\<rparr>) = (r, s'\<lparr>sync_stub_detected := b\<rparr>)"
    by (simp add: read_flag)
  show ?case
  proof (cases r)
    case (Inl e)
    then show ?thesis using rd rd' by simp
  next
    case (Inr p)
    then show ?thesis
      using rd rd' Suc.IH [of s']
      by (simp add: Let_def sbind_def flush_input_def raise_def)
  qed
qed

lemma command_flag:
  "command op d c (s\<lparr>sync_stub_detected := b\<rparr>)
     = map_prod id (\<lambda>t. t\<lparr>sync_stub_detected := b\<rparr>) (command op d c s)"
proof (cases op)
  case None
  then show ?thesis
    by (simp add: command_def sbind_def ret_def command_recv_flag)
next
  case (Some opc)
  show ?thesis
  proof (cases "pack_header opc (length d) c")
    case (Inl e)
    then show ?thesis
      using Some by (simp add: command_def sbind_def lift_def)
  next
    case (Inr hdr)
    have "command_recv 100 op ((s\<lparr>tx := tx s @ [slip_encode (hdr @ d)]\<rparr>)\<lparr>sync_stub_detected := b\<rparr>)
        = map_prod id (\<lambda>t. t\<lparr>sync_stub_detected := b\<rparr>)
            (command_recv 100 op (s\<lparr>tx := tx s @ [slip_encode (hdr @ d)]\<rparr>))"
      by (rule command_recv_flag)
    moreover have "s\<lparr>sync_stub_detected := b, tx := tx s @ [slip_encode (hdr @ d)]\<rparr>
        = (s\<lparr>tx := tx s @ [slip_encode (hdr @ d)]\<rparr>)\<lparr>sync_stub_detected := b\<rparr>"
      by (cases s) simp
    ultimately have "command_recv 100 op (s\<lparr>sync_stub_detected := b, tx := tx s @ [slip_encode (hdr @ d)]\<rparr>)
        = map_prod id (\<lambda>t. t\<lparr>sync_stub_detected := b\<rparr>)
            (command_recv 100 op (s\<lparr>tx := tx s @ [slip_encode (hdr @ d)]\<rparr>))"
      by (simp only:)
    then show ?thesis
      using Some Inr by (simp add: command_def sbind_def lift_def write_def)
  qed
qed

lemma command_keeps_flag:
  "sync_stub_detected (snd (command op d c s)) = sync_stub_detected s"
proof -
  have "command op d c s = command op d c (s\<lparr>sync_stub_detected := sync_stub_detected s\<rparr>)"
    by simp
  also have "\<dots> = map_prod id (\<lambda>t. t\<lparr>sync_stub_detected := sync_stub_detected s\<rparr>) (command op d c s)"
    by (rule command_flag)
  finally have "snd (command op d c s) = (snd (command op d c s))\<lparr>sync_stub_detected := sync_stub_detected s\<rparr>"
    by (metis snd_map_prod)
  then show ?thesis
    by (metis loader.select_convs(3) loader.surjective loader.update_convs(3))
qed

lemma drain_vals_flag:
  "fst (drain_vals n (s\<lparr>sync_stub_detected := b\<rparr>)) = fst (drain_vals n s)"
proof (induction n arbitrary: s)
  case 0
  show ?case by simp
next
  case (Suc n)
  obtain r s' where c: "command None [] 0 s = (r, s')" by (cases "command None [] 0 s")
  then have c': "command None [] 0 (s\<lparr>sync_stub_detected := b\<rparr>) = (r, s'\<lparr>sync_stub_detected := b\<rparr>)"
    by (simp add: command_flag)
  show ?case
    using c c' Suc.IH [of s']
    by (auto split: sum.splits prod.splits)
qed

lemma sync_drain_vals:
  assumes "fst (sync_drain n s) = Inr ()"
  shows "\<exists>vs. fst (drain_vals n s) = Inr vs \<and> length vs = n \<and>
     sync_stub_detected (snd (sync_drain n s)) = (sync_stub_detected s \<and> (\<forall>v\<in>set vs. v = 0))"
  using assms
proof (induction n arbitrary: s)
  case 0
  then show ?case by simp
next
  case (Suc n)
  obtain r s' where c: "command None [] 0 s = (r, s')" by (cases "command None [] 0 s")
  with Suc.prems obtain val d where r: "r = Inr (val, d)"
    by (cases r) auto
  let ?t = "s'\<lparr>sync_stub_detected := sync_stub_detected s' \<and> val = 0\<rparr>"
  from Suc.prems c r have run: "fst (sync_drain n ?t) = Inr ()" by simp
  from Suc.IH [OF run] obtain vs where vs: "fst (drain_vals n ?t) = Inr vs" "length vs = n"
    "sync_stub_detected (snd (sync_drain n ?t)) = (sync_stub_detected ?t \<and> (\<forall>v\<in>set vs. v = 0))"
    by blast
  from vs(1) have dv: "fst (drain_vals n s') = Inr vs"
    by (simp add: drain_vals_flag)
  have keep: "sync_stub_detected s' = sync_stub_detected s"
    using command_keeps_flag [of None "[]" 0 s] c by simp
  have "fst (drain_vals (Suc n) s) = Inr (val # vs)"
    using c r dv by (auto split: sum.splits prod.splits)
  moreover have "sync_stub_detected (snd (sync_drain (Suc n) s))
      = (sync_stub_detected s \<and> (\<forall>v\<in>set (val # vs). v = 0))"
    using c r vs(3) keep by auto
  ultimately show ?case using vs(2) by auto
qed

lemma sync_flag:
  assumes "fst (sync s) = Inr ()"
  shows "\<exists>vs. fst (sync_vals s) = Inr vs \<and> length vs = 8 \<and>
     sync_stub_detected (snd (sync s)) = (\<forall>v\<in>set vs. v = 0)"
proof -
  obtain r s' where c: "command (Some ESP_SYNC) sync_payload 0 s = (r, s')"
    by (cases "command (Some ESP_SYNC) sync_payload 0 s")
  with assms obtain val d where r: "r = Inr (val, d)"
    by (cases r) (auto simp add: sync_def)
  let ?t = "s'\<lparr>sync_stub_detected := (val = 0)\<rparr>"
  from assms c r have run: "fst (sync_drain 7 ?t) = Inr ()" by (simp add: sync_def)
  from sync_drain_vals [OF run] obtain vs where vs: "fst (drain_vals 7 ?t) = Inr vs" "length vs = 7"
    "sync_stub_detected (snd (sync_drain 7 ?t)) = (sync_stub_detected ?t \<and> (\<forall>v\<in>set vs. v = 0))"
    by blast
  from vs(1) have dv: "fst (drain_vals 7 s') = Inr vs"
    by (simp add: drain_vals_flag)
  have "fst (sync_vals s) = Inr (val # vs)"
    using c r dv by (auto simp add: sync_vals_def split: sum.splits prod.splits)
  moreover have "sync_stub_detected (snd (sync s)) = (\<forall>v\<in>set (val # vs). v = 0)"
    using c r vs(3) by (auto simp add: sync_def)
  ultimately show ?thesis using vs(2) by auto
qed

lemma slip_reader_idle: "slip_reader port = idle_reader False port"
  by (simp add: slip_reader_def idle_reader_def)

lemma read_frame:
  assumes "slip_rd s = idle_reader b (slip_encode p # cs)"
  shows "read s = (Inr p, s\<lparr>slip_rd := idle_reader True cs\<rparr>)"
  using assms slip_next_frame [of "slip_rd s" b p cs]
  by (simp add: read_def idle_reader_def)

lemma command_recv_skips:
  assumes "8 \<le> length p" and "p ! 0 \<noteq> 1" and "n \<le> m"
    and "slip_rd s = idle_reader b (replicate m (slip_encode p) @ cs)"
  shows "fst (command_recv n op s) = Inl (FatalError ResponseMismatch)"
  using assms(3,4)
proof (induction n arbitrary: s m b)
  case 0
  show ?case by simp
next
  case (Suc n)
  then obtain m' where m: "m = Suc m'" "n \<le> m'"
    by (cases m) simp_all
  with Suc.prems have "slip_rd s = idle_reader b (slip_encode p # (replicate m' (slip_encode p) @ cs))"
    by simp
  then have rd: "read s = (Inr p, s\<lparr>slip_rd := idle_reader True (replicate m' (slip_encode p) @ cs)\<rparr>)"
    by (rule read_frame)
  have "fst (command_recv n op (s\<lparr>slip_rd := idle_reader True (replicate m' (slip_encode p) @ cs)\<rparr>))
      = Inl (FatalError ResponseMismatch)"
    by (rule Suc.IH [OF m(2)]) simp
  then show ?case
    using rd assms(1,2) by (simp add: Let_def)
qed

lemma command_recv_accept:
  assumes "slip_rd s = idle_reader b (slip_encode p # cs)"
    and "8 \<le> length p" and "p ! 0 = 1" and "op = None \<or> op = Some (p ! 1)"
  shows "command_recv (Suc n) op s
     = (Inr (unpack_le (take 4 (drop 4 p)), drop 8 p), s\<lparr>slip_rd := idle_reader True cs\<rparr>)"
  using read_frame [OF assms(1)] assms(2,3,4) by (auto simp add: Let_def)

lemma sync_drain_accept:
  assumes "slip_rd s = idle_reader b (replicate n (slip_encode p) @ cs)"
    and "8 \<le> length p" and "p ! 0 = 1" and "unpack_le (take 4 (drop 4 p)) = 0"
  shows "fst (sync_drain n s) = Inr () \<and>
    sync_stub_detected (snd (sync_drain n s)) = sync_stub_detected s"
  using assms(1)
proof (induction n arbitrary: s b)
  case 0
  show ?case by simp
next
  case (Suc n)
  then have "slip_rd s = idle_reader b (slip_encode p # (replicate n (slip_encode p) @ cs))"
    by simp
  then have "command_recv (Suc 99) None s
     = (Inr (unpack_le (take 4 (drop 4 p)), drop 8 p),
        s\<lparr>slip_rd := idle_reader True (replicate n (slip_encode p) @ cs)\<rparr>)"
    using assms(2,3) by (intro command_recv_accept) simp_all
  then have c: "command None [] 0 s
     = (Inr (0, drop 8 p), s\<lparr>slip_rd := idle_reader True (replicate n (slip_encode p) @ cs)\<rparr>)"
    using assms(4) by (simp add: command_def sbind_def ret_def)
  let ?t = "s\<lparr>slip_rd := idle_reader True (replicate n (slip_encode p) @ cs),
      sync_stub_detected := sync_stub_detected s\<rparr>"
  have "fst (sync_drain n ?t) = Inr () \<and>
    sync_stub_detected (snd (sync_drain n ?t)) = sync_stub_detected ?t"
    by (rule Suc.IH) simp
  then show ?case
    using c by simp
qed

lemma pack_le_2:
  "pack_le 2 v = [of_nat (v mod 256), of_nat (v div 256 mod 256)]"
proof -
  have "(2::nat) = Suc (Suc 0)" by simp
  then show ?thesis by (simp only: pack_le.simps)
qed

lemma pack_le_4:
  "pack_le 4 v = [of_nat (v mod 256), of_nat (v div 256 mod 256),
     of_nat (v div 256 div 256 mod 256), of_nat (v div 256 div 256 div 256 mod 256)]"
proof -
  have "(4::nat) = Suc (Suc (Suc (Suc 0)))" by simp
  then show ?thesis by (simp only: pack_le.simps)
qed

lemma sync_payload_header:
  "pack_header ESP_SYNC (length sync_payload) 0 = Inr [0, 8, 36, 0, 0, 0, 0, 0]"
  by (simp add: pack_header_def pack_field_def ebind_def sync_payload_def ESP_SYNC_def
      pack_le_2 pack_le_4)

lemma sync_stub_scenario:
  "fst (sync (new_loader (replicate 8 (slip_encode resp_stub_ok)))) = Inr () \<and>
   sync_stub_detected (snd (sync (new_loader (replicate 8 (slip_encode resp_stub_ok)))))"
proof -
  let ?s = "new_loader (replicate 8 (slip_encode resp_stub_ok))"
  let ?s1 = "?s\<lparr>tx := tx ?s @ [slip_encode ([0, 8, 36, 0, 0, 0, 0, 0] @ sync_payload)]\<rparr>"
  have "replicate 8 (slip_encode resp_stub_ok)
      = slip_encode resp_stub_ok # (replicate 7 (slip_encode resp_stub_ok) @ [])"
    by (simp add: eval_nat_numeral)
  then have "slip_rd ?s1 = idle_reader False (slip_encode resp_stub_ok # (replicate 7 (slip_encode resp_stub_ok) @ []))"
    by (simp add: new_loader_def slip_reader_idle)
  then have "command_recv (Suc 99) (Some ESP_SYNC) ?s1
     = (Inr (unpack_le (take 4 (drop 4 resp_stub_ok)), drop 8 resp_stub_ok),
        ?s1\<lparr>slip_rd := idle_reader True (replicate 7 (slip_encode resp_stub_ok) @ [])\<rparr>)"
    by (intro command_recv_accept) (simp_all add: resp_stub_ok_def ESP_SYNC_def)
  moreover have "unpack_le (take 4 (drop 4 resp_stub_ok)) = 0"
    by (simp add: resp_stub_ok_def)
  ultimately have c: "command (Some ESP_SYNC) sync_payload 0 ?s
     = (Inr (0, drop 8 resp_stub_ok),
        ?s1\<lparr>slip_rd := idle_reader True (replicate 7 (slip_encode resp_stub_ok) @ [])\<rparr>)"
    by (simp add: command_def sbind_def lift_def sync_payload_header write_def)
  let ?t = "?s1\<lparr>slip_rd := idle_reader True (replicate 7 (slip_encode resp_stub_ok) @ []),
      sync_stub_detected := True\<rparr>"
  have "fst (sync_drain 7 ?t) = Inr () \<and>
    sync_stub_detected (snd (sync_drain 7 ?t)) = sync_stub_detected ?t"
    by (rule sync_drain_accept [where b = True and p = resp_stub_ok and cs = "[]"])
      (simp_all add: resp_stub_ok_def)
  then show ?thesis
    using c by (simp add: sync_def)
qed

text \<open>C4 as stated fails when the status of the replies is their first byte: a port that
  answers every read with the reply of status 0, opcode echo 0x08 and value 0 has all its
  frames discarded by \<^verbatim>\<open>command\<close>, which gives up after 100 reads; \<^verbatim>\<open>sync\<close> raises and
  the flag is not set.\<close>

theorem sync_status0_rejected:
  "fst (sync (new_loader (replicate 200 (slip_encode resp_status0)))) = Inl (FatalError ResponseMismatch) \<and>
   \<not> sync_stub_detected (snd (sync (new_loader (replicate 200 (slip_encode resp_status0)))))"
proof -
  let ?s = "new_loader (replicate 200 (slip_encode resp_status0))"
  let ?s1 = "?s\<lparr>tx := tx ?s @ [slip_encode ([0, 8, 36, 0, 0, 0, 0, 0] @ sync_payload)]\<rparr>"
  have "slip_rd ?s1 = idle_reader False (replicate 200 (slip_encode resp_status0) @ [])"
    by (simp add: new_loader_def slip_reader_idle)
  moreover have "8 \<le> length resp_status0" and "resp_status0 ! 0 \<noteq> 1"
    by (simp_all add: resp_status0_def)
  moreover have "(100::nat) \<le> 200" by simp
  ultimately have "fst (command_recv 100 (Some ESP_SYNC) ?s1) = Inl (FatalError ResponseMismatch)"
    by (intro command_recv_skips [where p = resp_status0 and m = 200 and b = False and cs = "[]"])
  then have c: "fst (command (Some ESP_SYNC) sync_payload 0 ?s) = Inl (FatalError ResponseMismatch)"
    by (simp add: command_def sbind_def lift_def sync_payload_header write_def split: prod.splits sum.splits)
  have k: "sync_stub_detected (snd (command (Some ESP_SYNC) sync_payload 0 ?s)) = sync_stub_detected ?s"
    by (rule command_keeps_flag)
  obtain r s' where rs: "command (Some ESP_SYNC) sync_payload 0 ?s = (r, s')"
    by (cases "command (Some ESP_SYNC) sync_payload 0 ?s")
  have "\<not> sync_stub_detected ?s" by (simp add: new_loader_def)
  with c k rs show ?thesis
    by (simp add: sync_def)
qed

text \<open>C4, amended. When \<^verbatim>\<open>sync\<close> returns, the flag \<^verbatim>\<open>sync_stub_detected\<close> holds exactly
  when the \<^verbatim>\<open>val\<close> field is zero in all eight replies that were accepted: the reply to the
  sync command and the replies to the seven calls of \<^verbatim>\<open>command()\<close> that follow it. A reply
  is accepted only if it has at least 8 bytes and its first byte is 1. In particular a port that
  answers every read with the reply of first byte 1, opcode echo 0x08, value 0 and zero
  status bytes lets \<^verbatim>\<open>sync\<close> return with the flag set.\<close>

theorem sync_stub_detected_amended:
  "(fst (sync s) = Inr () \<longrightarrow>
      (\<exists>vs. fst (sync_vals s) = Inr vs \<and> length vs = 8 \<and>
         sync_stub_detected (snd (sync s)) = (\<forall>v\<in>set vs. v = 0))) \<and>
   fst (sync (new_loader (replicate 8 (slip_encode resp_stub_ok)))) = Inr () \<and>
   sync_stub_detected (snd (sync (new_loader (replicate 8 (slip_encode resp_stub_ok)))))"
  using sync_flag [of s] sync_stub_scenario by blast

theorem sync_stub_detected_amended_witness:
  "fst (sync (new_loader (replicate 8 (slip_encode resp_stub_ok)))) = Inr () \<and>
   (\<exists>vs. fst (sync_vals (new_loader (replicate 8 (slip_encode resp_stub_ok)))) = Inr vs \<and>
      length vs = 8 \<and> (\<forall>v\<in>set vs. v = 0))"
  using sync_stub_detected_amended [of "new_loader (replicate 8 (slip_encode resp_stub_ok))"]
  by blast

section \<open>What the methods keep\<close>

lemma keepsD: "keeps g m \<Longrightarrow> g (snd (m s)) = g s"
  by (simp add: keeps_def)

lemma port_blind_calls [simp]: "port_blind (\<lambda>s. f (calls s))"
  by (simp add: port_blind_def)

lemma port_blind_secure [simp]: "port_blind secure_download_mode"
  by (simp add: port_blind_def)

lemma keeps_ret [simp]: "keeps g (ret v)"
  by (simp add: keeps_def ret_def)

lemma keeps_raise [simp]: "keeps g (raise e)"
  by (simp add: keeps_def raise_def)

lemma keeps_lift [simp]: "keeps g (lift r)"
  by (simp add: keeps_def lift_def)

lemma keeps_print [simp]: "port_blind g \<Longrightarrow> keeps g (print m)"
  by (simp add: keeps_def print_def port_blind_def)

lemma keeps_record_call:
  "(\<And>s. g (s\<lparr>calls := calls s @ [c]\<rparr>) = g s) \<Longrightarrow> keeps g (record_call c)"
  by (simp add: keeps_def record_call_def)

lemma keeps_sbind:
  assumes "keeps g m" and "\<And>v. keeps g (f v)"
  shows "keeps g (sbind m f)"
  unfolding keeps_def
proof
  fix s
  obtain r s' where ms: "m s = (r, s')" by (cases "m s")
  have a: "g s' = g s"
    using keepsD [OF assms(1), of s] ms by simp
  show "g (snd (sbind m f s)) = g s"
  proof (cases r)
    case (Inl e)
    then show ?thesis using ms a by (simp add: sbind_def)
  next
    case (Inr v)
    then show ?thesis using ms a keepsD [OF assms(2), of v s'] by (simp add: sbind_def)
  qed
qed

lemma keeps_catch_fatal:
  assumes "keeps g m" and "\<And>e. keeps g (h e)"
  shows "keeps g (catch_fatal m h)"
  unfolding keeps_def
proof
  fix s
  obtain r s' where ms: "m s = (r, s')" by (cases "m s")
  have a: "g s' = g s"
    using keepsD [OF assms(1), of s] ms by simp
  show "g (snd (catch_fatal m h s)) = g s"
    using ms a keepsD [OF assms(2)] by (cases r) (simp_all add: catch_fatal_def)
qed

lemma keeps_read [simp]: "port_blind g \<Longrightarrow> keeps g read"
  by (simp add: keeps_def read_def port_blind_def split: prod.splits)

lemma keeps_write [simp]: "port_blind g \<Longrightarrow> keeps g (write p)"
  by (simp add: keeps_def write_def port_blind_def)

lemma keeps_flush_input [simp]: "port_blind g \<Longrightarrow> keeps g flush_input"
  by (simp add: keeps_def flush_input_def port_blind_def)

lemma keeps_command_recv [simp]:
  assumes "port_blind g"
  shows "keeps g (command_recv n op)"
  unfolding keeps_def
proof
  fix s
  show "g (snd (command_recv n op s)) = g s"
  proof (induction n arbitrary: s)
    case 0
    show ?case by simp
  next
    case (Suc n)
    obtain r s' where rd: "read s = (r, s')" by (cases "read s")
    have a: "g s' = g s"
      using keepsD [OF keeps_read [OF assms], of s] rd by simp
    have f: "\<And>x. g (s'\<lparr>slip_rd := x\<rparr>) = g s'"
      using assms by (simp add: port_blind_def)
    show ?case
    proof (cases r)
      case (Inl e)
      then show ?thesis using rd a by simp
    next
      case (Inr p)
      then show ?thesis
        using rd a f Suc.IH [of s']
        by (simp add: Let_def sbind_def raise_def flush_input_def)
    qed
  qed
qed

lemma keeps_command [simp]: "port_blind g \<Longrightarrow> keeps g (command op d c)"
  unfolding command_def
  by (intro keeps_sbind) (simp_all add: keeps_sbind split: option.splits)

lemma keeps_check_command [simp]: "port_blind g \<Longrightarrow> keeps g (check_command esp op d c)"
  unfolding check_command_def
  by (intro keeps_sbind) (simp_all add: Let_def split: prod.splits)

lemma keeps_block_attempts [simp]:
  assumes "port_blind g"
  shows "keeps g (block_attempts esp op d seq n)"
  unfolding keeps_def
proof
  fix s
  have k: "keeps g (sbind (lift (pack_I [length d, seq, 0, 0])) (\<lambda>hdr.
             check_command esp op (hdr @ d) (checksum d ESP_CHECKSUM_MAGIC)))"
    using assms by (intro keeps_sbind) simp_all
  show "g (snd (block_attempts esp op d seq n s)) = g s"
  proof (induction n arbitrary: s)
    case 0
    from keepsD [OF k, of s] show ?case
      by (auto split: prod.splits sum.splits)
  next
    case (Suc n)
    from keepsD [OF k, of s] Suc.IH show ?case
      by (auto split: prod.splits sum.splits)
  qed
qed

lemma keeps_stub_and_esp32 [simp]:
  "keeps g m \<Longrightarrow> keeps g (stub_and_esp32_function_only esp m)"
  by (simp add: stub_and_esp32_function_only_def)

lemma keeps_flash_begin:
  assumes "port_blind g" and "\<And>s. g (s\<lparr>calls := calls s @ [FlashBegin sz offset e]\<rparr>) = g s"
  shows "keeps g (flash_begin esp sz offset e)"
  unfolding flash_begin_def Let_def
  using assms by (intro keeps_sbind keeps_record_call) (simp_all add: keeps_sbind)

lemma keeps_flash_block:
  assumes "port_blind g" and "\<And>s. g (s\<lparr>calls := calls s @ [FlashBlock d q]\<rparr>) = g s"
  shows "keeps g (flash_block esp d q)"
  unfolding flash_block_def
  using assms by (intro keeps_sbind keeps_record_call) simp_all

lemma keeps_flash_encrypt_block:
  assumes "port_blind g" and "\<And>s. g (s\<lparr>calls := calls s @ [FlashBlock d q]\<rparr>) = g s"
    and "\<And>s. g (s\<lparr>calls := calls s @ [FlashEncryptBlock d q]\<rparr>) = g s"
  shows "keeps g (flash_encrypt_block esp d q)"
  unfolding flash_encrypt_block_def
  using assms by (intro keeps_sbind keeps_record_call) (simp_all add: keeps_flash_block)

lemma keeps_flash_defl_begin:
  assumes "port_blind g" and "\<And>s. g (s\<lparr>calls := calls s @ [FlashDeflBegin sz csz offset]\<rparr>) = g s"
  shows "keeps g (flash_defl_begin esp sz csz offset)"
  unfolding flash_defl_begin_def Let_def
  using assms by (intro keeps_sbind keeps_record_call) (simp_all add: keeps_sbind)

lemma keeps_flash_defl_block:
  assumes "port_blind g" and "\<And>s. g (s\<lparr>calls := calls s @ [FlashDeflBlock d q]\<rparr>) = g s"
  shows "keeps g (flash_defl_block esp d q)"
  unfolding flash_defl_block_def
  using assms by (intro keeps_sbind keeps_record_call) simp_all

lemma keeps_read_reg:
  assumes "port_blind g" and "\<And>s. g (s\<lparr>calls := calls s @ [ReadReg a]\<rparr>) = g s"
  shows "keeps g (read_reg a)"
  unfolding read_reg_def
  using assms by (intro keeps_sbind keeps_record_call) (simp_all split: prod.splits)

lemma keeps_flash_md5sum:
  assumes "port_blind g" and "\<And>s. g (s\<lparr>calls := calls s @ [FlashMd5sum a sz]\<rparr>) = g s"
  shows "keeps g (flash_md5sum lb esp a sz)"
  unfolding flash_md5sum_def
  using assms
  by (intro keeps_sbind keeps_record_call keeps_stub_and_esp32) (simp_all split: reply.splits)

section \<open>What the flash methods add to the call history\<close>

lemma emitsD: "emits Q m \<Longrightarrow> \<exists>cs. calls (snd (m s)) = calls s @ cs \<and> list_all Q cs"
  by (simp add: emits_def)

lemma emits_keeps: "keeps calls m \<Longrightarrow> emits Q m"
  by (simp add: emits_def keeps_def)

lemma port_blind_calls_id [simp]: "port_blind calls"
  by (simp add: port_blind_def)

lemma emits_ret [simp]: "emits Q (ret v)"
  by (simp add: emits_keeps)

lemma emits_raise [simp]: "emits Q (raise e)"
  by (simp add: emits_keeps)

lemma emits_lift [simp]: "emits Q (lift r)"
  by (simp add: emits_keeps)

lemma emits_print [simp]: "emits Q (print m)"
  by (simp add: emits_keeps)

lemma emits_check_command [simp]: "emits Q (check_command esp op d c)"
  by (simp add: emits_keeps)

lemma emits_command [simp]: "emits Q (command op d c)"
  by (simp add: emits_keeps)

lemma emits_block_attempts [simp]: "emits Q (block_attempts esp op d q n)"
  by (simp add: emits_keeps)

lemma emits_record_call: "Q c \<Longrightarrow> emits Q (record_call c)"
  by (simp add: emits_def record_call_def)

lemma emits_sbind:
  assumes "emits Q m" and "\<And>v. emits Q (f v)"
  shows "emits Q (sbind m f)"
  unfolding emits_def
proof
  fix s
  obtain r s' where ms: "m s = (r, s')" by (cases "m s")
  from emitsD [OF assms(1), of s] ms obtain cs where cs: "calls s' = calls s @ cs" "list_all Q cs"
    by auto
  show "\<exists>cs. calls (snd (sbind m f s)) = calls s @ cs \<and> list_all Q cs"
  proof (cases r)
    case (Inl e)
    then show ?thesis using ms cs by (simp add: sbind_def)
  next
    case (Inr v)
    from emitsD [OF assms(2), of v s'] obtain ds
      where "calls (snd (f v s')) = calls s' @ ds" "list_all Q ds" by auto
    then show ?thesis using ms cs Inr by (simp add: sbind_def)
  qed
qed

lemma emits_stub_and_esp32 [simp]:
  "emits Q m \<Longrightarrow> emits Q (stub_and_esp32_function_only esp m)"
  by (simp add: stub_and_esp32_function_only_def)

lemma emits_flash_begin: "Q (FlashBegin sz offset e) \<Longrightarrow> emits Q (flash_begin esp sz offset e)"
  unfolding flash_begin_def Let_def
  by (intro emits_sbind emits_record_call) (simp_all add: emits_sbind)

lemma emits_flash_block: "Q (FlashBlock d q) \<Longrightarrow> emits Q (flash_block esp d q)"
  unfolding flash_block_def
  by (intro emits_sbind emits_record_call) simp_all

lemma emits_flash_encrypt_block:
  "Q (FlashBlock d q) \<Longrightarrow> Q (FlashEncryptBlock d q) \<Longrightarrow> emits Q (flash_encrypt_block esp d q)"
  unfolding flash_encrypt_block_def
  by (intro emits_sbind emits_record_call) (simp_all add: emits_flash_block)

lemma emits_flash_defl_begin:
  "Q (FlashDeflBegin sz csz offset) \<Longrightarrow> emits Q (flash_defl_begin esp sz csz offset)"
  unfolding flash_defl_begin_def Let_def
  by (intro emits_sbind emits_record_call emits_stub_and_esp32) (simp_all add: emits_sbind)

lemma emits_flash_defl_block: "Q (FlashDeflBlock d q) \<Longrightarrow> emits Q (flash_defl_block esp d q)"
  unfolding flash_defl_block_def
  by (intro emits_sbind emits_record_call emits_stub_and_esp32) simp_all

lemma emits_read_reg: "Q (ReadReg a) \<Longrightarrow> emits Q (read_reg a)"
  unfolding read_reg_def
  by (intro emits_sbind emits_record_call) (simp_all split: prod.splits)

lemma emits_flash_md5sum: "Q (FlashMd5sum a sz) \<Longrightarrow> emits Q (flash_md5sum lb esp a sz)"
  unfolding flash_md5sum_def
  by (intro emits_sbind emits_record_call emits_stub_and_esp32) (simp_all split: reply.splits)

lemma emits_write_blocks_plain:
  assumes "\<And>d q. Q (FlashBlock d q)" and "\<And>d q. Q (FlashEncryptBlock d q)"
  shows "emits Q (write_blocks esp False encrypted image_bytes seq)"
proof (induction esp "False" encrypted image_bytes seq rule: write_blocks.induct)
  case (1 esp encrypted image_bytes seq)
  show ?case
  proof (cases "image_bytes = [] \<or> FLASH_WRITE_SIZE esp = 0")
    case True
    then show ?thesis
      by (subst write_blocks.simps) auto
  next
    case False
    then have "emits Q (write_blocks esp False encrypted
        (drop (FLASH_WRITE_SIZE esp) image_bytes) (seq + 1))"
      using 1 by simp
    then show ?thesis
      using False assms
      by (subst write_blocks.simps)
        (simp add: Let_def emits_sbind emits_flash_block emits_flash_encrypt_block)
  qed
qed

lemma emits_write_blocks_defl:
  assumes "\<And>d q. Q (FlashDeflBlock d q)"
  shows "emits Q (write_blocks esp True encrypted image_bytes seq)"
proof (induction esp "True" encrypted image_bytes seq rule: write_blocks.induct)
  case (1 esp encrypted image_bytes seq)
  show ?case
  proof (cases "image_bytes = [] \<or> FLASH_WRITE_SIZE esp = 0")
    case True
    then show ?thesis
      by (subst write_blocks.simps) auto
  next
    case False
    then have "emits Q (write_blocks esp True encrypted
        (drop (FLASH_WRITE_SIZE esp) image_bytes) (seq + 1))"
      using 1 by simp
    then show ?thesis
      using False assms
      by (subst write_blocks.simps) (simp add: Let_def emits_sbind emits_flash_defl_block)
  qed
qed

lemma emits_write_image_plain:
  assumes "\<And>a b c. Q (FlashBegin a b c)" and "\<And>d q. Q (FlashBlock d q)"
    and "\<And>d q. Q (FlashEncryptBlock d q)" and "\<And>a. Q (ReadReg a)"
  shows "emits Q (write_image lb esp False encrypted address image_bytes)"
  unfolding write_image_def Let_def
  using assms
  by (intro emits_sbind)
    (simp_all add: emits_sbind emits_flash_begin emits_write_blocks_plain emits_read_reg)

lemma emits_write_image_defl:
  assumes "\<And>a b c. Q (FlashDeflBegin a b c)" and "\<And>d q. Q (FlashDeflBlock d q)"
    and "\<And>a. Q (ReadReg a)"
  shows "emits Q (write_image lb esp True encrypted address image_bytes)"
  unfolding write_image_def Let_def
  using assms
  by (intro emits_sbind)
    (simp_all add: emits_sbind emits_flash_defl_begin emits_write_blocks_defl emits_read_reg)

lemma emits_verify_md5:
  assumes "Q (FlashMd5sum a sz)"
  shows "emits Q (verify_md5 lb esp a sz digest)"
proof -
  have e: "emits Q (sbind (flash_md5sum lb esp a sz) (\<lambda>res.
             if res \<noteq> digest
             then sbind (print Md5Mismatch) (\<lambda>_. raise (FatalError Md5DoesNotMatch))
             else print HashVerified))"
    using assms by (intro emits_sbind emits_flash_md5sum) (simp_all add: emits_sbind)
  show ?thesis
    unfolding emits_def
  proof
    fix s
    from emitsD [OF e, of s] show "\<exists>cs. calls (snd (verify_md5 lb esp a sz digest s)) = calls s @ cs \<and> list_all Q cs"
      by (auto simp add: verify_md5_def split: prod.splits sum.splits)
  qed
qed

lemma calls_record_then:
  assumes "keeps calls m"
  shows "calls (snd (sbind (record_call c) (\<lambda>_. m) s)) = calls s @ [c]"
  using keepsD [OF assms, of "s\<lparr>calls := calls s @ [c]\<rparr>"]
  by (simp add: sbind_def record_call_def)

lemma sbind_calls_prefix:
  assumes "calls (snd (m s)) = calls s @ xs" and "\<And>v. emits Q (f v)"
  shows "\<exists>cs. calls (snd (sbind m f s)) = calls s @ xs @ cs \<and> list_all Q cs"
proof -
  obtain r s' where ms: "m s = (r, s')" by (cases "m s")
  show ?thesis
  proof (cases r)
    case (Inl e)
    then show ?thesis using ms assms(1) by (simp add: sbind_def)
  next
    case (Inr v)
    from emitsD [OF assms(2), of v s'] obtain ds
      where "calls (snd (f v s')) = calls s' @ ds" "list_all Q ds" by auto
    then show ?thesis using ms assms(1) Inr by (simp add: sbind_def)
  qed
qed

lemma calls_flash_defl_begin:
  "calls (snd (flash_defl_begin esp sz csz offset s)) = calls s @ [FlashDeflBegin sz csz offset]"
  unfolding flash_defl_begin_def Let_def
  by (rule calls_record_then) (simp add: keeps_sbind)

lemma calls_flash_begin:
  "calls (snd (flash_begin esp sz offset e s)) = calls s @ [FlashBegin sz offset e]"
  unfolding flash_begin_def Let_def
  by (rule calls_record_then) (simp add: keeps_sbind)

lemma calls_flash_block:
  "calls (snd (flash_block esp d q s)) = calls s @ [FlashBlock d q]"
  unfolding flash_block_def
  by (rule calls_record_then) simp

lemma calls_read_reg:
  "calls (snd (read_reg a s)) = calls s @ [ReadReg a]"
  unfolding read_reg_def
  by (rule calls_record_then) (simp add: keeps_sbind split: prod.splits)

lemma calls_flash_md5sum:
  "calls (snd (flash_md5sum lb esp a sz s)) = calls s @ [FlashMd5sum a sz]"
  unfolding flash_md5sum_def
  by (rule calls_record_then) (simp add: keeps_sbind split: reply.splits)

lemma write_image_defl_calls:
  "\<exists>cs. calls (snd (write_image lb esp True e a img s))
      = calls s @ FlashDeflBegin (length img) (length (zlib_compress lb img)) a # cs
     \<and> list_all (\<lambda>c. \<not> is_plain_write c) cs"
proof -
  let ?m = "sbind (flash_defl_begin esp (length img) (length (zlib_compress lb img)) a)
      (\<lambda>blocks. ret (zlib_compress lb img))"
  have "keeps calls (ret (zlib_compress lb img) :: byte list action)" by simp
  have m: "calls (snd (?m s))
      = calls s @ [FlashDeflBegin (length img) (length (zlib_compress lb img)) a]"
    using calls_flash_defl_begin [of esp "length img" "length (zlib_compress lb img)" a s]
    by (cases "flash_defl_begin esp (length img) (length (zlib_compress lb img)) a s")
      (auto simp add: sbind_def ret_def split: sum.splits)
  have "\<exists>cs. calls (snd (sbind ?m (\<lambda>to_send.
      sbind (write_blocks esp True e to_send 0) (\<lambda>_.
        if IS_STUB esp then sbind (read_reg CHIP_DETECT_MAGIC_REG_ADDR) (\<lambda>_. ret ())
        else ret ())) s))
     = calls s @ [FlashDeflBegin (length img) (length (zlib_compress lb img)) a] @ cs
       \<and> list_all (\<lambda>c. \<not> is_plain_write c) cs"
    by (rule sbind_calls_prefix [where m = ?m and s = s, OF m])
      (simp add: emits_sbind emits_write_blocks_defl emits_read_reg)
  then show ?thesis
    by (simp add: write_image_def Let_def)
qed

lemma update_image_flash_params_compress:
  "update_image_flash_params esp a (args\<lparr>compress := c\<rparr>) img = update_image_flash_params esp a args img"
  by (simp add: update_image_flash_params_def Let_def cong: sum.case_cong if_cong)

lemma emits_Pair [simp]: "emits Q (Pair r)"
  by (simp add: emits_def)

lemma emits_write_flash_file_encrypted:
  "emits (\<lambda>c. \<not> is_defl c) (write_flash_file lb esp args (address, argfile, True))"
proof -
  have w: "\<And>img. emits (\<lambda>c. \<not> is_defl c) (write_image lb esp False True address img)"
    by (rule emits_write_image_plain) simp_all
  show ?thesis
    unfolding write_flash_file_def Let_def prod.case
    by (intro emits_sbind) (simp_all add: emits_sbind w)
qed

lemma write_flash_file_compress_encrypted:
  assumes "compress args"
  shows "write_flash_file lb esp args (address, argfile, True) s
     = write_flash_file lb esp (args\<lparr>compress := False\<rparr>) (address, argfile, True)
         (s\<lparr>printed := printed s @ [WarnCompressEncrypt (name argfile)]\<rparr>)"
  using assms
  by (simp add: write_flash_file_def sbind_def print_def ret_def lift_def
      update_image_flash_params_compress split: sum.splits)

lemma write_flash_file_compressed_calls:
  assumes "compress args" and "padded_image esp False (content argfile) = Inr padded"
    and "padded \<noteq> []" and "update_image_flash_params esp address args padded = Inr img"
  shows "\<exists>cs. calls (snd (write_flash_file lb esp args (address, argfile, False) s))
      = calls s @ FlashDeflBegin (length img) (length (zlib_compress lb img)) address # cs
     \<and> list_all (\<lambda>c. \<not> is_plain_write c) cs"
proof -
  let ?s0 = "if no_stub args then s\<lparr>printed := printed s @ [ErasingFlash]\<rparr> else s"
  let ?m = "write_image lb esp True False address img"
  let ?f = "\<lambda>(u::unit) s. if \<not> secure_download_mode s
      then verify_md5 lb esp address (length img) (md5_hexdigest lb img) s else (Inr (), s)"
  have unfold: "write_flash_file lb esp args (address, argfile, False) s = sbind ?m ?f ?s0"
    using assms by (simp add: write_flash_file_def sbind_def print_def ret_def lift_def Let_def)
  from write_image_defl_calls [of lb esp False address img ?s0] obtain cs
    where cs: "calls (snd (?m ?s0))
        = calls ?s0 @ FlashDeflBegin (length img) (length (zlib_compress lb img)) address # cs"
      "list_all (\<lambda>c. \<not> is_plain_write c) cs"
    by blast
  have f: "\<And>v. emits (\<lambda>c. \<not> is_plain_write c) (?f v)"
  proof -
    fix v
    have "emits (\<lambda>c. \<not> is_plain_write c) (verify_md5 lb esp address (length img) (md5_hexdigest lb img))"
      by (rule emits_verify_md5) simp
    then show "emits (\<lambda>c. \<not> is_plain_write c) (?f v)"
      by (auto simp add: emits_def)
  qed
  from sbind_calls_prefix [of ?m ?s0 "FlashDeflBegin (length img) (length (zlib_compress lb img)) address # cs",
      OF _ f] cs(1)
  obtain ds where "calls (snd (sbind ?m ?f ?s0))
      = calls ?s0 @ (FlashDeflBegin (length img) (length (zlib_compress lb img)) address # cs) @ ds"
    "list_all (\<lambda>c. \<not> is_plain_write c) ds"
    by auto
  then show ?thesis
    using unfold cs(2) by (intro exI [of _ "cs @ ds"]) auto
qed


section \<open>Properties of \<^verbatim>\<open>write_flash\<close>\<close>

text \<open>C10. A file whose content is empty after the alignment padding is skipped: the loop body
  returns normally, the last line it prints is the warning about the empty file, no method of
  the loader is called for it (no begin, block, finish or MD5 command), nothing is written to
  or read from the port, and the loop goes on with the remaining files.\<close>

theorem write_flash_skips_empty_file:
  assumes "padded_image esp encrypted (content argfile) = Inr []"
  shows "fst (write_flash_file lb esp args (address, argfile, encrypted) s) = Inr () \<and>
     calls (snd (write_flash_file lb esp args (address, argfile, encrypted) s)) = calls s \<and>
     tx (snd (write_flash_file lb esp args (address, argfile, encrypted) s)) = tx s \<and>
     slip_rd (snd (write_flash_file lb esp args (address, argfile, encrypted) s)) = slip_rd s \<and>
     last (printed (snd (write_flash_file lb esp args (address, argfile, encrypted) s)))
       = WarnEmptyFile (name argfile) \<and>
     write_flash_files lb esp args ((address, argfile, encrypted) # rest) s
       = write_flash_files lb esp args rest
           (snd (write_flash_file lb esp args (address, argfile, encrypted) s))"
  using assms
  by (simp add: write_flash_file_def sbind_def print_def ret_def lift_def)

theorem write_flash_skips_empty_file_witness:
  "padded_image (esp8266_rom stub0) False (content empty_bin) = Inr [] \<and>
   fst (write_flash_file lib0 (esp8266_rom stub0) args_dio (0, empty_bin, False) (new_loader []))
     = Inr () \<and>
   calls (snd (write_flash_file lib0 (esp8266_rom stub0) args_dio (0, empty_bin, False)
     (new_loader []))) = [] \<and>
   tx (snd (write_flash_file lib0 (esp8266_rom stub0) args_dio (0, empty_bin, False)
     (new_loader []))) = []"
proof -
  have h: "padded_image (esp8266_rom stub0) False (content empty_bin) = Inr []"
    by (simp add: padded_image_def pad_to_def empty_bin_def)
  show ?thesis
    using h write_flash_skips_empty_file [OF h, of lib0 args_dio 0 "new_loader []" "[]"]
    by (simp add: new_loader_def)
qed

section \<open>The blocks of an uncompressed write\<close>

lemma padded_blocks_Nil: "padded_blocks bs [] = []"
  by (simp add: padded_blocks.simps)

lemma padded_blocks_step:
  "xs \<noteq> [] \<Longrightarrow> bs \<noteq> 0 \<Longrightarrow>
   padded_blocks bs xs
     = (take bs xs @ replicate (bs - length (take bs xs)) 0xFF) # padded_blocks bs (drop bs xs)"
  by (subst padded_blocks.simps) simp

lemma ceil_div_step:
  fixes n bs :: nat
  assumes "0 < n" and "0 < bs"
  shows "(n + bs - 1) div bs = Suc ((n - bs + bs - 1) div bs)"
proof (cases "n \<le> bs")
  case True
  then have "n - bs + bs - 1 < bs" using assms by simp
  then have "(n - bs + bs - 1) div bs = 0" by simp
  moreover have "(n + bs - 1) div bs = 1"
  proof -
    have "n + bs - 1 = bs + (n - 1)" using assms by simp
    moreover have "(bs + (n - 1)) div bs = (n - 1) div bs + 1"
      using assms by (intro div_add_self1) simp
    moreover have "(n - 1) div bs = 0" using True assms by simp
    ultimately show ?thesis by simp
  qed
  ultimately show ?thesis by simp
next
  case False
  then have e1: "n - bs + bs - 1 = n - 1" and e2: "n + bs - 1 = (n - 1) + bs"
    using assms by simp_all
  have "((n - 1) + bs) div bs = (n - 1) div bs + 1"
    using assms by (intro div_add_self2) simp
  then show ?thesis
    unfolding e1 e2 by simp
qed

lemma le_ceil_mult:
  fixes m bs :: nat
  assumes "0 < bs"
  shows "m \<le> ((m + bs - 1) div bs) * bs"
proof -
  have "m + bs - 1 < bs + ((m + bs - 1) div bs) * bs"
    using assms by (rule dividend_less_div_times)
  then show ?thesis using assms by simp
qed

lemma padded_blocks_length:
  "0 < bs \<Longrightarrow> length (padded_blocks bs xs) = (length xs + bs - 1) div bs"
proof (induction bs xs rule: padded_blocks.induct)
  case (1 bs xs)
  show ?case
  proof (cases "xs = []")
    case True
    then show ?thesis using 1(2) by (simp add: padded_blocks_Nil)
  next
    case False
    then have "length (padded_blocks bs (drop bs xs)) = (length (drop bs xs) + bs - 1) div bs"
      using 1 by simp
    then show ?thesis
      using False 1(2) ceil_div_step [of "length xs" bs]
      by (simp add: padded_blocks_step)
  qed
qed

lemma padded_blocks_each:
  "b \<in> set (padded_blocks bs xs) \<Longrightarrow> length b = bs"
proof (induction bs xs rule: padded_blocks.induct)
  case (1 bs xs)
  show ?case
  proof (cases "xs = [] \<or> bs = 0")
    case True
    then show ?thesis using 1(2) by (simp add: padded_blocks.simps)
  next
    case False
    then show ?thesis
      using 1 by (auto simp add: padded_blocks_step)
  qed
qed

lemma padded_blocks_sum:
  "sum_list (map length (padded_blocks bs xs)) = length (padded_blocks bs xs) * bs"
proof -
  have "map length (padded_blocks bs xs) = replicate (length (padded_blocks bs xs)) bs"
    by (simp add: map_replicate_const [symmetric] padded_blocks_each cong: map_cong)
  then show ?thesis
    by (simp add: sum_list_replicate)
qed

lemma padded_blocks_concat:
  "0 < bs \<Longrightarrow> concat (padded_blocks bs xs)
     = xs @ replicate (length (padded_blocks bs xs) * bs - length xs) 0xFF"
proof (induction bs xs rule: padded_blocks.induct)
  case (1 bs xs)
  show ?case
  proof (cases "xs = []")
    case True
    then show ?thesis by (simp add: padded_blocks_Nil)
  next
    case False
    let ?n = "length (padded_blocks bs (drop bs xs))"
    have IH: "concat (padded_blocks bs (drop bs xs))
        = drop bs xs @ replicate (?n * bs - length (drop bs xs)) 0xFF"
      using 1 False by simp
    show ?thesis
    proof (cases "length xs \<le> bs")
      case True
      then have "drop bs xs = []" by simp
      then show ?thesis
        using False 1(2) True by (simp add: padded_blocks_step padded_blocks_Nil)
    next
      case long: False
      have len: "length xs - bs \<le> ?n * bs"
        using padded_blocks_length [of bs "drop bs xs"] 1(2) le_ceil_mult [of bs "length xs - bs"]
        by simp
      have step: "padded_blocks bs xs = take bs xs # padded_blocks bs (drop bs xs)"
        using False 1(2) long by (simp add: padded_blocks_step)
      have "concat (padded_blocks bs xs)
          = take bs xs @ (drop bs xs @ replicate (?n * bs - (length xs - bs)) 0xFF)"
        unfolding step using IH by simp
      also have "\<dots> = xs @ replicate (?n * bs - (length xs - bs)) 0xFF"
        by simp
      also have "?n * bs - (length xs - bs) = length (padded_blocks bs xs) * bs - length xs"
        unfolding step using len long by simp
      finally show ?thesis .
    qed
  qed
qed

lemma sbind_Inr:
  assumes "fst (sbind m f s) = Inr r"
  obtains v where "m s = (Inr v, snd (m s))" and "sbind m f s = f v (snd (m s))"
proof (cases "m s")
  case (Pair a s')
  with assms obtain v where "a = Inr v"
    by (cases a) (simp_all add: sbind_def)
  with Pair that show thesis by (simp add: sbind_def)
qed

lemma write_blocks_plain_calls:
  assumes "fst (write_blocks esp False False image_bytes seq s) = Inr ()"
  shows "calls (snd (write_blocks esp False False image_bytes seq s))
     = calls s @ map (\<lambda>(b, i). FlashBlock b i)
         (zip (padded_blocks (FLASH_WRITE_SIZE esp) image_bytes)
            [seq..<seq + length (padded_blocks (FLASH_WRITE_SIZE esp) image_bytes)])"
  using assms
proof (induction esp "False" "False" image_bytes seq arbitrary: s rule: write_blocks.induct)
  case (1 esp image_bytes seq)
  let ?bs = "FLASH_WRITE_SIZE esp"
  show ?case
  proof (cases "image_bytes = []")
    case True
    then show ?thesis
      by (simp add: write_blocks.simps padded_blocks_Nil ret_def)
  next
    case False
    have bs: "?bs \<noteq> 0"
    proof
      assume "?bs = 0"
      with False 1(2) show False
        by (simp add: write_blocks.simps raise_def)
    qed
    let ?blk = "take ?bs image_bytes @ replicate (?bs - length (take ?bs image_bytes)) 0xFF"
    let ?rest = "write_blocks esp False False (drop ?bs image_bytes) (seq + 1)"
    have unfold: "write_blocks esp False False image_bytes seq
        = sbind (flash_block esp ?blk seq) (\<lambda>_. ?rest)"
      using False bs by (subst write_blocks.simps) (simp add: Let_def)
    from 1(2) obtain v where fb: "flash_block esp ?blk seq s = (Inr v, snd (flash_block esp ?blk seq s))"
      and cont: "sbind (flash_block esp ?blk seq) (\<lambda>_. ?rest) s
          = ?rest (snd (flash_block esp ?blk seq s))"
      unfolding unfold by (rule sbind_Inr)
    let ?s1 = "snd (flash_block esp ?blk seq s)"
    have ok: "fst (?rest ?s1) = Inr ()"
      using 1(2) unfolding unfold cont .
    have IH: "calls (snd (?rest ?s1)) = calls ?s1 @ map (\<lambda>(b, i). FlashBlock b i)
         (zip (padded_blocks ?bs (drop ?bs image_bytes))
            [seq + 1..<seq + 1 + length (padded_blocks ?bs (drop ?bs image_bytes))])"
      using 1(1) [OF False bs refl ok] .
    have c1: "calls ?s1 = calls s @ [FlashBlock ?blk seq]"
      by (rule calls_flash_block)
    have pb: "padded_blocks ?bs image_bytes = ?blk # padded_blocks ?bs (drop ?bs image_bytes)"
      using False bs by (rule padded_blocks_step)
    let ?n = "length (padded_blocks ?bs (drop ?bs image_bytes))"
    have "[seq..<seq + Suc ?n] = seq # [Suc seq..<seq + Suc ?n]"
      by (rule upt_conv_Cons) simp
    then have up: "[seq..<seq + length (?blk # padded_blocks ?bs (drop ?bs image_bytes))]
        = seq # [seq + 1..<seq + 1 + ?n]"
      by simp
    show ?thesis
      unfolding unfold cont IH c1 pb up by simp
  qed
qed

lemma keeps_write_blocks:
  assumes "port_blind g" and "\<And>s c. g (s\<lparr>calls := c\<rparr>) = g s"
  shows "keeps g (write_blocks esp compr encrypted image_bytes seq)"
proof (induction esp compr encrypted image_bytes seq rule: write_blocks.induct)
  case (1 esp compr encrypted image_bytes seq)
  show ?case
  proof (cases "image_bytes = [] \<or> FLASH_WRITE_SIZE esp = 0")
    case True
    then show ?thesis
      by (subst write_blocks.simps) auto
  next
    case False
    then have "keeps g (write_blocks esp compr encrypted
        (drop (FLASH_WRITE_SIZE esp) image_bytes) (seq + 1))"
      using 1 by simp
    then show ?thesis
      using False assms
      by (subst write_blocks.simps)
        (simp add: Let_def keeps_sbind keeps_flash_block keeps_flash_encrypt_block
          keeps_flash_defl_block)
  qed
qed

lemma keeps_write_image:
  assumes "port_blind g" and "\<And>s c. g (s\<lparr>calls := c\<rparr>) = g s"
  shows "keeps g (write_image lb esp compr encrypted address image_bytes)"
  unfolding write_image_def Let_def
  using assms
  by (intro keeps_sbind)
    (simp_all add: keeps_sbind keeps_flash_begin keeps_flash_defl_begin keeps_write_blocks
      keeps_read_reg)

lemma flash_begin_zero:
  "FLASH_WRITE_SIZE esp = 0 \<Longrightarrow> fst (flash_begin esp sz offset e s) = Inl ZeroDivisionError"
  by (simp add: flash_begin_def sbind_def record_call_def raise_def)

lemma write_image_plain_calls:
  assumes "fst (write_image lb esp False False address img s) = Inr ()"
  shows "FLASH_WRITE_SIZE esp \<noteq> 0"
    and "calls (snd (write_image lb esp False False address img s))
      = calls s @ FlashBegin (length img) address False #
        map (\<lambda>(b, i). FlashBlock b i)
          (zip (padded_blocks (FLASH_WRITE_SIZE esp) img)
             [0..<length (padded_blocks (FLASH_WRITE_SIZE esp) img)]) @
        (if IS_STUB esp then [ReadReg CHIP_DETECT_MAGIC_REG_ADDR] else [])"
proof -
  let ?begin = "flash_begin esp (length img) address False"
  let ?tail = "\<lambda>u::unit. if IS_STUB esp then sbind (read_reg CHIP_DETECT_MAGIC_REG_ADDR) (\<lambda>_. ret ())
        else ret ()"
  obtain r1 s1 where b: "?begin s = (r1, s1)" by (cases "?begin s")
  obtain r2 s2 where w: "write_blocks esp False False img 0 s1 = (r2, s2)"
    by (cases "write_blocks esp False False img 0 s1")
  from assms b obtain nb where r1: "r1 = Inr nb"
    by (cases r1) (simp_all add: write_image_def sbind_def)
  from assms b r1 w have r2: "r2 = Inr ()"
    by (cases r2) (simp_all add: write_image_def sbind_def ret_def)
  from assms b r1 w r2 have t: "fst (?tail () s2) = Inr ()"
    and fin: "write_image lb esp False False address img s = ?tail () s2"
    by (simp_all add: write_image_def sbind_def ret_def)
  show "FLASH_WRITE_SIZE esp \<noteq> 0"
    using b r1 flash_begin_zero [of esp "length img" address False s] by auto
  have c1: "calls s1 = calls s @ [FlashBegin (length img) address False]"
    using calls_flash_begin [of esp "length img" address False s] b by simp
  have c2: "calls s2 = calls s1 @ map (\<lambda>(b, i). FlashBlock b i)
          (zip (padded_blocks (FLASH_WRITE_SIZE esp) img)
             [0..<0 + length (padded_blocks (FLASH_WRITE_SIZE esp) img)])"
    using write_blocks_plain_calls [of esp img 0 s1] w r2 by simp
  have c3: "calls (snd (?tail () s2))
      = calls s2 @ (if IS_STUB esp then [ReadReg CHIP_DETECT_MAGIC_REG_ADDR] else [])"
  proof (cases "IS_STUB esp")
    case True
    have "calls (snd (sbind (read_reg CHIP_DETECT_MAGIC_REG_ADDR) (\<lambda>_. ret ()) s2))
        = calls (snd (read_reg CHIP_DETECT_MAGIC_REG_ADDR s2))"
      by (cases "read_reg CHIP_DETECT_MAGIC_REG_ADDR s2")
        (auto simp add: sbind_def ret_def split: sum.splits)
    then show ?thesis
      using True by (simp add: calls_read_reg)
  next
    case False
    then show ?thesis by (simp add: ret_def)
  qed
  show "calls (snd (write_image lb esp False False address img s))
      = calls s @ FlashBegin (length img) address False #
        map (\<lambda>(b, i). FlashBlock b i)
          (zip (padded_blocks (FLASH_WRITE_SIZE esp) img)
             [0..<length (padded_blocks (FLASH_WRITE_SIZE esp) img)]) @
        (if IS_STUB esp then [ReadReg CHIP_DETECT_MAGIC_REG_ADDR] else [])"
    unfolding fin c3 c2 c1 by simp
qed

lemma verify_md5_calls:
  "calls (snd (verify_md5 lb esp a n digest s)) = calls s @ [FlashMd5sum a n]"
proof -
  obtain r s1 where m: "flash_md5sum lb esp a n s = (r, s1)"
    by (cases "flash_md5sum lb esp a n s")
  have "calls s1 = calls s @ [FlashMd5sum a n]"
    using calls_flash_md5sum [of lb esp a n s] m by simp
  then show ?thesis
    using m
    by (cases r) (auto simp add: verify_md5_def sbind_def print_def raise_def)
qed

lemma verify_md5_Inr:
  assumes "fst (verify_md5 lb esp a n digest s) = Inr ()"
  shows "fst (flash_md5sum lb esp a n s) = Inr digest \<or>
    fst (flash_md5sum lb esp a n s) = Inl NotImplementedInROMError"
proof -
  obtain r s1 where m: "flash_md5sum lb esp a n s = (r, s1)"
    by (cases "flash_md5sum lb esp a n s")
  show ?thesis
    using assms m
    by (cases r) (auto simp add: verify_md5_def sbind_def print_def raise_def split: if_splits)
qed

lemma secure_write_image:
  "secure_download_mode (snd (write_image lb esp compr encrypted address img s))
     = secure_download_mode s"
  by (rule keepsD [OF keeps_write_image]) simp_all

section \<open>Runs against a device that acknowledges\<close>

lemma readyI: "slip_rd s = idle_reader b port \<Longrightarrow> ready s port"
  by (simp add: ready_def idle_reader_def)

lemma readyD: "ready s port \<Longrightarrow> \<exists>b. slip_rd s = idle_reader b port"
  unfolding ready_def by (rule exI)

lemma ready_fields [simp]:
  "ready (s\<lparr>calls := c\<rparr>) port = ready s port"
  "ready (s\<lparr>printed := p\<rparr>) port = ready s port"
  "ready (s\<lparr>tx := t\<rparr>) port = ready s port"
  "ready (s\<lparr>sync_stub_detected := d\<rparr>) port = ready s port"
  by (simp_all add: ready_def)

lemma ready_new_loader [simp]: "ready (new_loader port) port"
  by (rule readyI [of _ False]) (simp add: new_loader_def slip_reader_idle)

lemma checksum_range:
  "0 \<le> st \<Longrightarrow> st < 2 ^ 8 \<Longrightarrow> 0 \<le> checksum d st \<and> checksum d st < 2 ^ 8"
proof (induction d arbitrary: st)
  case Nil
  then show ?case by simp
next
  case (Cons b d)
  have "0 \<le> st XOR uint b"
    using Cons.prems by simp
  moreover have "st XOR uint b < 2 ^ 8"
    using Cons.prems uint_lt2p [of b] by (intro XOR_upper) simp_all
  ultimately show ?case
    using Cons.IH [of "st XOR uint b"] by simp
qed

lemma checksum_magic_range:
  "0 \<le> checksum d ESP_CHECKSUM_MAGIC" "checksum d ESP_CHECKSUM_MAGIC < 2 ^ 32"
proof -
  have "0 \<le> checksum d ESP_CHECKSUM_MAGIC \<and> checksum d ESP_CHECKSUM_MAGIC < 2 ^ 8"
    by (rule checksum_range) (simp_all add: ESP_CHECKSUM_MAGIC_def)
  then show "0 \<le> checksum d ESP_CHECKSUM_MAGIC" "checksum d ESP_CHECKSUM_MAGIC < 2 ^ 32"
    by simp_all
qed

lemma pack_header_ok:
  assumes "len < 65536" and "0 \<le> c" and "c < 2 ^ 32"
  shows "\<exists>hdr. pack_header op len c = Inr hdr"
  using assms by (simp add: pack_header_def pack_field_def ebind_def)

lemma pack_I_ok:
  "list_all (\<lambda>v. v < 2 ^ 32) vs \<Longrightarrow> \<exists>b. pack_I vs = Inr b \<and> length b = 4 * length vs"
proof (induction vs)
  case Nil
  then show ?case by simp
next
  case (Cons v vs)
  then obtain b where "pack_I vs = Inr b" "length b = 4 * length vs" by auto
  moreover have "pack_field 4 v = Inr (pack_le 4 v)"
    using Cons.prems by (simp add: pack_field_def)
  ultimately show ?case
    by (simp add: ebind_def length_pack_le)
qed

lemma sbind_ok:
  assumes "fst (m s) = Inr v"
  shows "sbind m f s = f v (snd (m s))"
  using assms by (cases "m s") (simp add: sbind_def)

lemma read_ready:
  assumes "ready s (slip_encode p # cs)"
  shows "fst (read s) = Inr p" and "ready (snd (read s)) cs"
proof -
  from readyD [OF assms] obtain b where "slip_rd s = idle_reader b (slip_encode p # cs)" ..
  then have r: "read s = (Inr p, s\<lparr>slip_rd := idle_reader True cs\<rparr>)"
    by (rule read_frame)
  show "fst (read s) = Inr p"
    using r by simp
  show "ready (snd (read s)) cs"
    unfolding r by (rule readyI [of _ True]) simp
qed

lemma command_ready:
  assumes "ready s (slip_encode p # cs)" and "8 \<le> length p" and "p ! 0 = 1" and "p ! 1 = op"
    and "length d < 65536" and "0 \<le> c" and "c < 2 ^ 32"
  shows "fst (command (Some op) d c s) = Inr (unpack_le (take 4 (drop 4 p)), drop 8 p)"
    and "ready (snd (command (Some op) d c s)) cs"
proof -
  from assms(5-7) obtain hdr where hdr: "pack_header op (length d) c = Inr hdr"
    using pack_header_ok by blast
  let ?s1 = "s\<lparr>tx := tx s @ [slip_encode (hdr @ d)]\<rparr>"
  from readyD [OF assms(1)] obtain b where "slip_rd s = idle_reader b (slip_encode p # cs)" ..
  then have "slip_rd ?s1 = idle_reader b (slip_encode p # cs)"
    by simp
  then have "command_recv (Suc 99) (Some op) ?s1
     = (Inr (unpack_le (take 4 (drop 4 p)), drop 8 p), ?s1\<lparr>slip_rd := idle_reader True cs\<rparr>)"
    using assms(2-4) by (intro command_recv_accept) simp_all
  then have r: "command (Some op) d c s
     = (Inr (unpack_le (take 4 (drop 4 p)), drop 8 p), ?s1\<lparr>slip_rd := idle_reader True cs\<rparr>)"
    using hdr by (simp add: command_def sbind_def lift_def write_def)
  show "fst (command (Some op) d c s) = Inr (unpack_le (take 4 (drop 4 p)), drop 8 p)"
    using r by simp
  show "ready (snd (command (Some op) d c s)) cs"
    unfolding r by (rule readyI [of _ True]) simp
qed

lemma ok_reply_facts:
  "8 \<le> length (ok_reply n op body)" "ok_reply n op body ! 0 = 1" "ok_reply n op body ! 1 = op"
  "drop 8 (ok_reply n op body) = body @ replicate n 0"
  "unpack_le (take 4 (drop 4 (ok_reply n op body))) = 0"
  by (simp_all add: ok_reply_def pack_le_2)

lemma check_command_ok:
  assumes "ready s (slip_encode (ok_reply (STATUS_BYTES_LENGTH esp) op body) # cs)"
    and "0 < STATUS_BYTES_LENGTH esp"
    and "length d < 65536" and "0 \<le> c" and "c < 2 ^ 32"
  shows "fst (check_command esp op d c s) = Inr (if body = [] then Val 0 else Body body)"
    and "ready (snd (check_command esp op d c s)) cs"
proof -
  let ?p = "ok_reply (STATUS_BYTES_LENGTH esp) op body"
  have c1: "fst (command (Some op) d c s) = Inr (unpack_le (take 4 (drop 4 ?p)), drop 8 ?p)"
    using assms(1) ok_reply_facts(1-3) assms(3-5) by (rule command_ready(1))
  have c2: "ready (snd (command (Some op) d c s)) cs"
    using assms(1) ok_reply_facts(1-3) assms(3-5) by (rule command_ready(2))
  have "check_command esp op d c s
      = (Inr (if body = [] then Val 0 else Body body), snd (command (Some op) d c s))"
    unfolding check_command_def sbind_ok [of "command (Some op) d c" s, OF c1] ok_reply_facts
    using assms(2)
    by (simp add: ret_def last_bytes_def but_last_bytes_def Let_def)
  then show "fst (check_command esp op d c s) = Inr (if body = [] then Val 0 else Body body)"
    and "ready (snd (check_command esp op d c s)) cs"
    using c2 by simp_all
qed

lemma block_attempts_ok:
  assumes rdy: "ready s (slip_encode (ok_reply (STATUS_BYTES_LENGTH esp) op []) # cs)"
    and st: "0 < STATUS_BYTES_LENGTH esp" and len: "length d + 16 < 65536" and sq: "seq < 2 ^ 32"
  shows "fst (block_attempts esp op d seq n s) = Inr ()"
    and "ready (snd (block_attempts esp op d seq n s)) cs"
proof -
  from pack_I_ok [of "[length d, seq, 0, 0]"] len sq obtain hdr
    where hdr: "pack_I [length d, seq, 0, 0] = Inr hdr" "length hdr = 16" by auto
  let ?c = "check_command esp op (hdr @ d) (checksum d ESP_CHECKSUM_MAGIC)"
  have l: "length (hdr @ d) < 65536" using hdr(2) len by simp
  have 1: "fst (?c s) = Inr (if ([]::byte list) = [] then Val 0 else Body [])"
    using rdy st l checksum_magic_range by (rule check_command_ok(1))
  have 2: "ready (snd (?c s)) cs"
    using rdy st l checksum_magic_range by (rule check_command_ok(2))
  obtain r s1 where c: "?c s = (r, s1)" by (cases "?c s")
  with 1 2 have r: "r = Inr (Val 0)" and s1: "ready s1 cs" by simp_all
  have inner: "sbind (lift (pack_I [length d, seq, 0, 0])) (\<lambda>hdr.
      check_command esp op (hdr @ d) (checksum d ESP_CHECKSUM_MAGIC)) s = (Inr (Val 0), s1)"
    unfolding hdr(1) by (simp add: sbind_def lift_def c r)
  have "block_attempts esp op d seq n s = (Inr (), s1)"
    by (subst block_attempts.simps) (simp only: inner prod.case sum.case)
  then show "fst (block_attempts esp op d seq n s) = Inr ()"
    and "ready (snd (block_attempts esp op d seq n s)) cs"
    using s1 by simp_all
qed

lemma flash_block_ok:
  assumes "ready s (slip_encode (ok_reply (STATUS_BYTES_LENGTH esp) ESP_FLASH_DATA []) # cs)"
    and "0 < STATUS_BYTES_LENGTH esp" and "length d + 16 < 65536" and "seq < 2 ^ 32"
  shows "fst (flash_block esp d seq s) = Inr ()"
    and "ready (snd (flash_block esp d seq s)) cs"
proof -
  let ?s1 = "s\<lparr>calls := calls s @ [FlashBlock d seq]\<rparr>"
  have r: "ready ?s1 (slip_encode (ok_reply (STATUS_BYTES_LENGTH esp) ESP_FLASH_DATA []) # cs)"
    using assms(1) by simp
  have e: "flash_block esp d seq s
      = block_attempts esp ESP_FLASH_DATA d seq (WRITE_BLOCK_ATTEMPTS - 1) ?s1"
    by (simp add: flash_block_def sbind_def record_call_def del: block_attempts.simps)
  show "fst (flash_block esp d seq s) = Inr ()"
    unfolding e using r assms(2-4) by (rule block_attempts_ok(1))
  show "ready (snd (flash_block esp d seq s)) cs"
    unfolding e using r assms(2-4) by (rule block_attempts_ok(2))
qed

lemma flash_encrypt_block_ok:
  assumes "ready s (slip_encode (ok_reply (STATUS_BYTES_LENGTH esp) ESP_FLASH_ENCRYPT_DATA []) # cs)"
    and "0 < STATUS_BYTES_LENGTH esp" and "length d + 16 < 65536" and "seq < 2 ^ 32"
    and "\<not> (isinstance_any (rom esp) [ESP32S2ROM, ESP32C3ROM, ESP32S3ROM, ESP32H2ROM, ESP32C2ROM]
            \<and> \<not> IS_STUB esp)"
  shows "fst (flash_encrypt_block esp d seq s) = Inr ()"
    and "ready (snd (flash_encrypt_block esp d seq s)) cs"
proof -
  let ?s1 = "s\<lparr>calls := calls s @ [FlashEncryptBlock d seq]\<rparr>"
  have r: "ready ?s1 (slip_encode (ok_reply (STATUS_BYTES_LENGTH esp) ESP_FLASH_ENCRYPT_DATA []) # cs)"
    using assms(1) by simp
  have e: "flash_encrypt_block esp d seq s
      = block_attempts esp ESP_FLASH_ENCRYPT_DATA d seq (WRITE_BLOCK_ATTEMPTS - 1) ?s1"
    using assms(5)
    by (auto simp add: flash_encrypt_block_def sbind_def record_call_def
        simp del: block_attempts.simps)
  show "fst (flash_encrypt_block esp d seq s) = Inr ()"
    unfolding e using r assms(2-4) by (rule block_attempts_ok(1))
  show "ready (snd (flash_encrypt_block esp d seq s)) cs"
    unfolding e using r assms(2-4) by (rule block_attempts_ok(2))
qed

lemma flash_defl_block_ok:
  assumes "ready s (slip_encode (ok_reply (STATUS_BYTES_LENGTH esp) ESP_FLASH_DEFL_DATA []) # cs)"
    and "0 < STATUS_BYTES_LENGTH esp" and "length d + 16 < 65536" and "seq < 2 ^ 32"
    and "IS_STUB esp \<or> isinstance (rom esp) ESP32ROM"
  shows "fst (flash_defl_block esp d seq s) = Inr ()"
    and "ready (snd (flash_defl_block esp d seq s)) cs"
proof -
  let ?s1 = "s\<lparr>calls := calls s @ [FlashDeflBlock d seq]\<rparr>"
  have r: "ready ?s1 (slip_encode (ok_reply (STATUS_BYTES_LENGTH esp) ESP_FLASH_DEFL_DATA []) # cs)"
    using assms(1) by simp
  have e: "flash_defl_block esp d seq s
      = block_attempts esp ESP_FLASH_DEFL_DATA d seq (WRITE_BLOCK_ATTEMPTS - 1) ?s1"
    using assms(5)
    by (simp add: flash_defl_block_def sbind_def record_call_def stub_and_esp32_function_only_def
        del: block_attempts.simps)
  show "fst (flash_defl_block esp d seq s) = Inr ()"
    unfolding e using r assms(2-4) by (rule block_attempts_ok(1))
  show "ready (snd (flash_defl_block esp d seq s)) cs"
    unfolding e using r assms(2-4) by (rule block_attempts_ok(2))
qed

lemma flash_begin_ok:
  assumes rdy: "ready s (slip_encode (ok_reply (STATUS_BYTES_LENGTH esp) ESP_FLASH_BEGIN []) # cs)"
    and st: "0 < STATUS_BYTES_LENGTH esp" and bs: "FLASH_WRITE_SIZE esp \<noteq> 0"
    and fit: "get_erase_size esp offset sz < 2 ^ 32" "sz + FLASH_WRITE_SIZE esp < 2 ^ 32"
      "offset < 2 ^ 32"
  shows "fst (flash_begin esp sz offset e s)
      = Inr ((sz + FLASH_WRITE_SIZE esp - 1) div FLASH_WRITE_SIZE esp)"
    and "ready (snd (flash_begin esp sz offset e s)) cs"
proof -
  let ?s1 = "s\<lparr>calls := calls s @ [FlashBegin sz offset e]\<rparr>"
  let ?nb = "(sz + FLASH_WRITE_SIZE esp - 1) div FLASH_WRITE_SIZE esp"
  let ?vs = "[get_erase_size esp offset sz, ?nb, FLASH_WRITE_SIZE esp, offset] @
             (if isinstance_any (rom esp)
                   [ESP32S2ROM, ESP32S3ROM, ESP32C3ROM, ESP32C6ROM, ESP32H2ROM, ESP32C2ROM]
                 \<and> \<not> IS_STUB esp
              then [if e then 1 else 0] else [])"
  have nb: "?nb < 2 ^ 32"
  proof -
    have "?nb \<le> sz + FLASH_WRITE_SIZE esp - 1" by (rule div_le_dividend)
    also have "\<dots> < 2 ^ 32" using fit(2) by simp
    finally show ?thesis .
  qed
  have "list_all (\<lambda>v. v < 2 ^ 32) ?vs"
    using fit nb by simp
  from pack_I_ok [OF this] obtain params
    where params: "pack_I ?vs = Inr params" "length params = 4 * length ?vs" by blast
  have l: "length params < 65536" using params(2) by simp
  let ?c = "check_command esp ESP_FLASH_BEGIN params 0"
  have r1: "ready ?s1 (slip_encode (ok_reply (STATUS_BYTES_LENGTH esp) ESP_FLASH_BEGIN []) # cs)"
    using rdy by simp
  have 1: "fst (?c ?s1) = Inr (if ([]::byte list) = [] then Val 0 else Body [])"
    using r1 st l by (rule check_command_ok(1)) simp_all
  have 2: "ready (snd (?c ?s1)) cs"
    using r1 st l by (rule check_command_ok(2)) simp_all
  obtain r s2 where c: "?c ?s1 = (r, s2)" by (cases "?c ?s1")
  with 1 2 have r: "r = Inr (Val 0)" and s2: "ready s2 cs" by simp_all
  have "flash_begin esp sz offset e s = (Inr ?nb, s2)"
    using bs params(1) c r
    by (simp add: flash_begin_def sbind_def record_call_def lift_def ret_def Let_def
        del: pack_I.simps split del: if_split)
  then show "fst (flash_begin esp sz offset e s) = Inr ?nb"
    and "ready (snd (flash_begin esp sz offset e s)) cs"
    using s2 by simp_all
qed

lemma flash_defl_begin_ok:
  assumes rdy: "ready s (slip_encode (ok_reply (STATUS_BYTES_LENGTH esp) ESP_FLASH_DEFL_BEGIN []) # cs)"
    and st: "0 < STATUS_BYTES_LENGTH esp" and bs: "FLASH_WRITE_SIZE esp \<noteq> 0"
    and cap: "IS_STUB esp \<or> isinstance (rom esp) ESP32ROM"
    and fit: "sz + FLASH_WRITE_SIZE esp < 2 ^ 32" "csz + FLASH_WRITE_SIZE esp < 2 ^ 32"
      "offset < 2 ^ 32"
  shows "fst (flash_defl_begin esp sz csz offset s)
      = Inr ((csz + FLASH_WRITE_SIZE esp - 1) div FLASH_WRITE_SIZE esp)"
    and "ready (snd (flash_defl_begin esp sz csz offset s)) cs"
proof -
  let ?s1 = "s\<lparr>calls := calls s @ [FlashDeflBegin sz csz offset]\<rparr>"
  let ?nb = "(csz + FLASH_WRITE_SIZE esp - 1) div FLASH_WRITE_SIZE esp"
  let ?eb = "(sz + FLASH_WRITE_SIZE esp - 1) div FLASH_WRITE_SIZE esp"
  let ?ws = "if IS_STUB esp then sz else ?eb * FLASH_WRITE_SIZE esp"
  let ?vs = "[?ws, ?nb, FLASH_WRITE_SIZE esp, offset] @
             (if isinstance_any (rom esp)
                   [ESP32S2ROM, ESP32S3ROM, ESP32C3ROM, ESP32C6ROM, ESP32H2ROM, ESP32C2ROM]
                 \<and> \<not> IS_STUB esp
              then [0] else [])"
  have nb: "?nb < 2 ^ 32"
  proof -
    have "?nb \<le> csz + FLASH_WRITE_SIZE esp - 1" by (rule div_le_dividend)
    also have "\<dots> < 2 ^ 32" using fit(2) by simp
    finally show ?thesis .
  qed
  have ws: "?ws < 2 ^ 32"
  proof -
    have "?eb * FLASH_WRITE_SIZE esp \<le> sz + FLASH_WRITE_SIZE esp - 1"
      by (rule div_times_less_eq_dividend)
    also have "\<dots> < 2 ^ 32" using fit(1) by simp
    finally have "?eb * FLASH_WRITE_SIZE esp < 2 ^ 32" .
    then show ?thesis using fit(1) by simp
  qed
  have "list_all (\<lambda>v. v < 2 ^ 32) ?vs"
    using fit nb ws by simp
  from pack_I_ok [OF this] obtain params
    where params: "pack_I ?vs = Inr params" "length params = 4 * length ?vs" by blast
  have l: "length params < 65536" using params(2) by simp
  let ?c = "check_command esp ESP_FLASH_DEFL_BEGIN params 0"
  have r1: "ready ?s1 (slip_encode (ok_reply (STATUS_BYTES_LENGTH esp) ESP_FLASH_DEFL_BEGIN []) # cs)"
    using rdy by simp
  have 1: "fst (?c ?s1) = Inr (if ([]::byte list) = [] then Val 0 else Body [])"
    using r1 st l by (rule check_command_ok(1)) simp_all
  have 2: "ready (snd (?c ?s1)) cs"
    using r1 st l by (rule check_command_ok(2)) simp_all
  obtain r s2 where c: "?c ?s1 = (r, s2)" by (cases "?c ?s1")
  with 1 2 have r: "r = Inr (Val 0)" and s2: "ready s2 cs" by simp_all
  have "flash_defl_begin esp sz csz offset s
      = sbind (lift (pack_I ?vs)) (\<lambda>params.
          sbind (check_command esp ESP_FLASH_DEFL_BEGIN params 0) (\<lambda>_. ret ?nb)) ?s1"
    using bs cap
    by (simp add: flash_defl_begin_def sbind_def record_call_def Let_def
        stub_and_esp32_function_only_def del: pack_I.simps split del: if_split cong: if_cong)
  also have "\<dots> = (Inr ?nb, s2)"
    unfolding params(1) by (simp add: sbind_def lift_def ret_def c r)
  finally have "flash_defl_begin esp sz csz offset s = (Inr ?nb, s2)" .
  then show "fst (flash_defl_begin esp sz csz offset s) = Inr ?nb"
    and "ready (snd (flash_defl_begin esp sz csz offset s)) cs"
    using s2 by simp_all
qed

lemma flash_md5sum_ok:
  assumes rdy: "ready s (slip_encode (ok_reply (STATUS_BYTES_LENGTH esp) ESP_SPI_FLASH_MD5 body) # cs)"
    and st: "0 < STATUS_BYTES_LENGTH esp"
    and cap: "IS_STUB esp \<or> isinstance (rom esp) ESP32ROM"
    and fit: "a < 2 ^ 32" "sz < 2 ^ 32"
    and body: "length body = 32"
  shows "fst (flash_md5sum lb esp a sz s) = utf8_decode lb body"
    and "ready (snd (flash_md5sum lb esp a sz s)) cs"
proof -
  let ?s1 = "s\<lparr>calls := calls s @ [FlashMd5sum a sz]\<rparr>"
  have "list_all (\<lambda>v. v < 2 ^ 32) [a, sz, 0, 0]"
    using fit by simp
  from pack_I_ok [OF this] obtain payload
    where payload: "pack_I [a, sz, 0, 0] = Inr payload" "length payload = 4 * length [a, sz, 0, 0]"
    by blast
  have l: "length payload < 65536" using payload(2) by simp
  let ?c = "check_command esp ESP_SPI_FLASH_MD5 payload 0"
  have r1: "ready ?s1 (slip_encode (ok_reply (STATUS_BYTES_LENGTH esp) ESP_SPI_FLASH_MD5 body) # cs)"
    using rdy by simp
  have 1: "fst (?c ?s1) = Inr (if body = [] then Val 0 else Body body)"
    using r1 st l by (rule check_command_ok(1)) simp_all
  have 2: "ready (snd (?c ?s1)) cs"
    using r1 st l by (rule check_command_ok(2)) simp_all
  have ne: "body \<noteq> []" using body by auto
  obtain r s2 where c: "?c ?s1 = (r, s2)" by (cases "?c ?s1")
  with 1 2 ne have r: "r = Inr (Body body)" and s2: "ready s2 cs" by simp_all
  have "flash_md5sum lb esp a sz s = (utf8_decode lb body, s2)"
    using cap payload(1) c r body
    by (simp add: flash_md5sum_def sbind_def record_call_def lift_def ret_def
        stub_and_esp32_function_only_def del: pack_I.simps split del: if_split)
  then show "fst (flash_md5sum lb esp a sz s) = utf8_decode lb body"
    and "ready (snd (flash_md5sum lb esp a sz s)) cs"
    using s2 by simp_all
qed

lemma padded_blocks_empty:
  "bs \<noteq> 0 \<Longrightarrow> padded_blocks bs xs = [] \<longleftrightarrow> xs = []"
  by (subst padded_blocks.simps) simp

lemma write_blocks_ok:
  assumes bs: "FLASH_WRITE_SIZE esp \<noteq> 0"
    and step: "\<And>d q s cs'. length d \<le> FLASH_WRITE_SIZE esp \<Longrightarrow> q < 2 ^ 32 \<Longrightarrow> ready s (F # cs') \<Longrightarrow>
        fst ((if compr then flash_defl_block esp d q
              else if encrypted then flash_encrypt_block esp d q
              else flash_block esp d q) s) = Inr () \<and>
        ready (snd ((if compr then flash_defl_block esp d q
              else if encrypted then flash_encrypt_block esp d q
              else flash_block esp d q) s)) cs'"
  shows "length (padded_blocks (FLASH_WRITE_SIZE esp) img) = n \<Longrightarrow>
     ready s (replicate n F @ cs) \<Longrightarrow> seq + n \<le> 2 ^ 32 \<Longrightarrow>
     fst (write_blocks esp compr encrypted img seq s) = Inr () \<and>
     ready (snd (write_blocks esp compr encrypted img seq s)) cs"
proof (induction n arbitrary: img seq s)
  case 0
  then have "img = []"
    using bs by (simp add: padded_blocks_empty)
  then show ?case
    using 0 by (simp add: write_blocks.simps ret_def)
next
  case (Suc n)
  let ?bs = "FLASH_WRITE_SIZE esp"
  have ne: "img \<noteq> []"
    using Suc.prems(1) by (auto simp add: padded_blocks_Nil)
  let ?blk = "if compr then take ?bs img
      else take ?bs img @ replicate (?bs - length (take ?bs img)) 0xFF"
  let ?send = "\<lambda>d q. if compr then flash_defl_block esp d q
              else if encrypted then flash_encrypt_block esp d q
              else flash_block esp d q"
  let ?rest = "write_blocks esp compr encrypted (drop ?bs img) (seq + 1)"
  have unfold: "write_blocks esp compr encrypted img seq = sbind (?send ?blk seq) (\<lambda>_. ?rest)"
    using ne bs by (subst write_blocks.simps) (simp add: Let_def)
  have len: "length ?blk \<le> ?bs" by simp
  have q: "seq < 2 ^ 32" using Suc.prems(3) by simp
  have r: "ready s (F # replicate n F @ cs)" using Suc.prems(2) by simp
  from step [OF len q r]
  have 1: "fst (?send ?blk seq s) = Inr ()"
    and 2: "ready (snd (?send ?blk seq s)) (replicate n F @ cs)"
    by simp_all
  have rest: "length (padded_blocks ?bs (drop ?bs img)) = n"
    using Suc.prems(1) padded_blocks_step [OF ne bs] by simp
  have sq: "(seq + 1) + n \<le> 2 ^ 32" using Suc.prems(3) by simp
  from Suc.IH [OF rest 2 sq]
  show ?case
    unfolding unfold sbind_ok [of "?send ?blk seq" s, OF 1] .
qed

lemma write_image_ok:
  assumes stub: "\<not> IS_STUB esp"
    and st: "0 < STATUS_BYTES_LENGTH esp"
    and bs: "FLASH_WRITE_SIZE esp \<noteq> 0" "FLASH_WRITE_SIZE esp + 16 < 65536"
    and fit: "get_erase_size esp address (length img) < 2 ^ 32"
      "length img + FLASH_WRITE_SIZE esp < 2 ^ 32" "address < 2 ^ 32"
    and enc: "encrypted \<Longrightarrow>
      \<not> isinstance_any (rom esp) [ESP32S2ROM, ESP32C3ROM, ESP32S3ROM, ESP32H2ROM, ESP32C2ROM]"
    and rdy: "ready s (slip_encode (ok_reply (STATUS_BYTES_LENGTH esp) ESP_FLASH_BEGIN []) #
        replicate (length (padded_blocks (FLASH_WRITE_SIZE esp) img))
          (slip_encode (ok_reply (STATUS_BYTES_LENGTH esp)
             (if encrypted then ESP_FLASH_ENCRYPT_DATA else ESP_FLASH_DATA) [])) @ cs)"
  shows "fst (write_image lb esp False encrypted address img s) = Inr ()"
    and "ready (snd (write_image lb esp False encrypted address img s)) cs"
proof -
  let ?bs = "FLASH_WRITE_SIZE esp"
  let ?n = "length (padded_blocks ?bs img)"
  let ?F = "slip_encode (ok_reply (STATUS_BYTES_LENGTH esp)
             (if encrypted then ESP_FLASH_ENCRYPT_DATA else ESP_FLASH_DATA) [])"
  let ?begin = "flash_begin esp (length img) address encrypted"
  have b1: "fst (?begin s) = Inr ((length img + ?bs - 1) div ?bs)"
    using rdy st bs(1) fit by (rule flash_begin_ok(1))
  have b2: "ready (snd (?begin s)) (replicate ?n ?F @ cs)"
    using rdy st bs(1) fit by (rule flash_begin_ok(2))
  have step: "\<And>d q s cs'. length d \<le> ?bs \<Longrightarrow> q < 2 ^ 32 \<Longrightarrow> ready s (?F # cs') \<Longrightarrow>
        fst ((if False then flash_defl_block esp d q
              else if encrypted then flash_encrypt_block esp d q
              else flash_block esp d q) s) = Inr () \<and>
        ready (snd ((if False then flash_defl_block esp d q
              else if encrypted then flash_encrypt_block esp d q
              else flash_block esp d q) s)) cs'"
  proof -
    fix d :: "byte list" and q :: nat and s cs'
    assume d: "length d \<le> ?bs" and q: "q < 2 ^ 32" and r: "ready s (?F # cs')"
    have l: "length d + 16 < 65536" using d bs(2) by simp
    show "fst ((if False then flash_defl_block esp d q
              else if encrypted then flash_encrypt_block esp d q
              else flash_block esp d q) s) = Inr () \<and>
        ready (snd ((if False then flash_defl_block esp d q
              else if encrypted then flash_encrypt_block esp d q
              else flash_block esp d q) s)) cs'"
    proof (cases encrypted)
      case True
      then have r': "ready s (slip_encode (ok_reply (STATUS_BYTES_LENGTH esp) ESP_FLASH_ENCRYPT_DATA []) # cs')"
        using r by simp
      have c: "\<not> (isinstance_any (rom esp) [ESP32S2ROM, ESP32C3ROM, ESP32S3ROM, ESP32H2ROM, ESP32C2ROM]
            \<and> \<not> IS_STUB esp)"
        using enc True by simp
      show ?thesis
        using True flash_encrypt_block_ok [OF r' st l q c] by simp
    next
      case False
      then have r': "ready s (slip_encode (ok_reply (STATUS_BYTES_LENGTH esp) ESP_FLASH_DATA []) # cs')"
        using r by simp
      show ?thesis
        using False flash_block_ok [OF r' st l q] by simp
    qed
  qed
  have n: "0 + ?n \<le> 2 ^ 32"
  proof -
    have "?n = (length img + ?bs - 1) div ?bs"
      using bs(1) by (simp add: padded_blocks_length)
    also have "\<dots> \<le> length img + ?bs - 1" by (rule div_le_dividend)
    also have "\<dots> \<le> 2 ^ 32" using fit(2) by simp
    finally show ?thesis by simp
  qed
  from write_blocks_ok [of esp ?F False encrypted img ?n "snd (?begin s)" cs 0, OF bs(1) step refl b2 n]
  have w1: "fst (write_blocks esp False encrypted img 0 (snd (?begin s))) = Inr ()"
    and w2: "ready (snd (write_blocks esp False encrypted img 0 (snd (?begin s)))) cs"
    by simp_all
  have "write_image lb esp False encrypted address img s
      = (Inr (), snd (write_blocks esp False encrypted img 0 (snd (?begin s))))"
    using stub w1
    by (simp add: write_image_def Let_def sbind_ok [of ?begin s, OF b1] ret_def
        sbind_ok [of "write_blocks esp False encrypted img 0" "snd (?begin s)", OF w1]
        sbind_def [of "sbind ?begin (\<lambda>blocks. ret img)"])
  then show "fst (write_image lb esp False encrypted address img s) = Inr ()"
    and "ready (snd (write_image lb esp False encrypted address img s)) cs"
    using w2 by simp_all
qed

lemma write_image_defl_ok:
  assumes stub: "\<not> IS_STUB esp" and cap: "isinstance (rom esp) ESP32ROM"
    and st: "0 < STATUS_BYTES_LENGTH esp"
    and bs: "FLASH_WRITE_SIZE esp \<noteq> 0" "FLASH_WRITE_SIZE esp + 16 < 65536"
    and fit: "length img + FLASH_WRITE_SIZE esp < 2 ^ 32"
      "length (zlib_compress lb img) + FLASH_WRITE_SIZE esp < 2 ^ 32" "address < 2 ^ 32"
    and rdy: "ready s (slip_encode (ok_reply (STATUS_BYTES_LENGTH esp) ESP_FLASH_DEFL_BEGIN []) #
        replicate (length (padded_blocks (FLASH_WRITE_SIZE esp) (zlib_compress lb img)))
          (slip_encode (ok_reply (STATUS_BYTES_LENGTH esp) ESP_FLASH_DEFL_DATA [])) @ cs)"
  shows "fst (write_image lb esp True encrypted address img s) = Inr ()"
    and "ready (snd (write_image lb esp True encrypted address img s)) cs"
proof -
  let ?bs = "FLASH_WRITE_SIZE esp"
  let ?z = "zlib_compress lb img"
  let ?n = "length (padded_blocks ?bs ?z)"
  let ?F = "slip_encode (ok_reply (STATUS_BYTES_LENGTH esp) ESP_FLASH_DEFL_DATA [])"
  let ?begin = "flash_defl_begin esp (length img) (length ?z) address"
  have cap': "IS_STUB esp \<or> isinstance (rom esp) ESP32ROM" using cap by simp
  have b1: "fst (?begin s) = Inr ((length ?z + ?bs - 1) div ?bs)"
    using rdy st bs(1) cap' fit by (rule flash_defl_begin_ok(1))
  have b2: "ready (snd (?begin s)) (replicate ?n ?F @ cs)"
    using rdy st bs(1) cap' fit by (rule flash_defl_begin_ok(2))
  have step: "\<And>d q s cs'. length d \<le> ?bs \<Longrightarrow> q < 2 ^ 32 \<Longrightarrow> ready s (?F # cs') \<Longrightarrow>
        fst ((if True then flash_defl_block esp d q
              else if encrypted then flash_encrypt_block esp d q
              else flash_block esp d q) s) = Inr () \<and>
        ready (snd ((if True then flash_defl_block esp d q
              else if encrypted then flash_encrypt_block esp d q
              else flash_block esp d q) s)) cs'"
  proof -
    fix d :: "byte list" and q :: nat and s cs'
    assume d: "length d \<le> ?bs" and q: "q < 2 ^ 32" and r: "ready s (?F # cs')"
    have l: "length d + 16 < 65536" using d bs(2) by simp
    show "fst ((if True then flash_defl_block esp d q
              else if encrypted then flash_encrypt_block esp d q
              else flash_block esp d q) s) = Inr () \<and>
        ready (snd ((if True then flash_defl_block esp d q
              else if encrypted then flash_encrypt_block esp d q
              else flash_block esp d q) s)) cs'"
      using flash_defl_block_ok [OF r st l q cap'] by simp
  qed
  have n: "0 + ?n \<le> 2 ^ 32"
  proof -
    have "?n = (length ?z + ?bs - 1) div ?bs"
      using bs(1) by (simp add: padded_blocks_length)
    also have "\<dots> \<le> length ?z + ?bs - 1" by (rule div_le_dividend)
    also have "\<dots> \<le> 2 ^ 32" using fit(2) by simp
    finally show ?thesis by simp
  qed
  from write_blocks_ok [of esp ?F True encrypted ?z ?n "snd (?begin s)" cs 0, OF bs(1) step refl b2 n]
  have w1: "fst (write_blocks esp True encrypted ?z 0 (snd (?begin s))) = Inr ()"
    and w2: "ready (snd (write_blocks esp True encrypted ?z 0 (snd (?begin s)))) cs"
    by simp_all
  have "write_image lb esp True encrypted address img s
      = (Inr (), snd (write_blocks esp True encrypted ?z 0 (snd (?begin s))))"
    using stub w1
    by (simp add: write_image_def Let_def sbind_ok [of ?begin s, OF b1] ret_def
        sbind_ok [of "write_blocks esp True encrypted ?z 0" "snd (?begin s)", OF w1]
        sbind_def [of "sbind ?begin (\<lambda>blocks. ret ?z)"])
  then show "fst (write_image lb esp True encrypted address img s) = Inr ()"
    and "ready (snd (write_image lb esp True encrypted address img s)) cs"
    using w2 by simp_all
qed

lemma verify_md5_ok:
  assumes rdy: "ready s (slip_encode (ok_reply (STATUS_BYTES_LENGTH esp) ESP_SPI_FLASH_MD5 body) # cs)"
    and st: "0 < STATUS_BYTES_LENGTH esp"
    and cap: "IS_STUB esp \<or> isinstance (rom esp) ESP32ROM"
    and fit: "a < 2 ^ 32" "sz < 2 ^ 32"
    and body: "length body = 32"
    and dec: "utf8_decode lb body = Inr digest"
  shows "fst (verify_md5 lb esp a sz digest s) = Inr ()"
    and "ready (snd (verify_md5 lb esp a sz digest s)) cs"
proof -
  have 1: "fst (flash_md5sum lb esp a sz s) = utf8_decode lb body"
    using rdy st cap fit body by (rule flash_md5sum_ok(1))
  have 2: "ready (snd (flash_md5sum lb esp a sz s)) cs"
    using rdy st cap fit body by (rule flash_md5sum_ok(2))
  obtain r s1 where m: "flash_md5sum lb esp a sz s = (r, s1)"
    by (cases "flash_md5sum lb esp a sz s")
  with 1 2 dec have r: "r = Inr digest" and s1: "ready s1 cs" by simp_all
  have "verify_md5 lb esp a sz digest s = (Inr (), s1\<lparr>printed := printed s1 @ [HashVerified]\<rparr>)"
    by (simp add: verify_md5_def sbind_def print_def m r)
  then show "fst (verify_md5 lb esp a sz digest s) = Inr ()"
    and "ready (snd (verify_md5 lb esp a sz digest s)) cs"
    using s1 by simp_all
qed

lemma ascii_decode_bytes:
  assumes "list_all (\<lambda>c. of_char c < (128::nat)) str"
  shows "ascii_decode (ascii_bytes str) = Inr str"
proof -
  have u: "\<And>c. unat (of_nat (of_char c) :: byte) = of_char c"
  proof -
    fix c :: char
    have "(of_char c :: nat) < 256"
      by (rule nat_of_char_less_256)
    then show "unat (of_nat (of_char c) :: byte) = of_char c"
      by (simp add: unat_of_nat)
  qed
  have "list_all (\<lambda>b. unat b < 128) (ascii_bytes str)"
    using assms by (simp add: ascii_bytes_def list_all_iff u)
  moreover have "map (\<lambda>b. char_of (unat b)) (ascii_bytes str) = str"
    by (simp add: ascii_bytes_def u comp_def)
  ultimately show ?thesis
    by (simp add: ascii_decode_def)
qed

lemma hex_digit_ascii:
  assumes "n < 16"
  shows "of_char (hex_digit n) < (128::nat)"
proof -
  have "hex_digit n \<in> set ''0123456789abcdef''"
    unfolding hex_digit_def using assms by (intro nth_mem) simp
  moreover have "\<forall>c \<in> set ''0123456789abcdef''. of_char c < (128::nat)"
    by simp
  ultimately show ?thesis
    by blast
qed

lemma hexify_lower_ascii:
  "list_all (\<lambda>c. of_char c < (128::nat)) (hexify_lower bs)"
proof -
  have "\<And>b::byte. unat b div 16 < 16"
  proof -
    fix b :: byte
    have "unat b < 2 ^ LENGTH(8)" by (rule unsigned_less)
    then have "unat b < 256" by simp
    then show "unat b div 16 < 16" by simp
  qed
  then show ?thesis
    by (simp add: hexify_lower_def list_all_iff hex_digit_ascii)
qed

lemma length_hexify_lower:
  "length (hexify_lower bs) = 2 * length bs"
  by (induction bs) (simp_all add: hexify_lower_def)

lemma esp32_rom_fields [simp]:
  "rom (esp32_rom ic stub) = ESP32ROM" "IS_STUB (esp32_rom ic stub) = False"
  "STATUS_BYTES_LENGTH (esp32_rom ic stub) = 4" "FLASH_WRITE_SIZE (esp32_rom ic stub) = 1024"
  "FLASH_ENCRYPTED_WRITE_ALIGN (esp32_rom ic stub) = Some 32"
  "BOOTLOADER_FLASH_OFFSET (esp32_rom ic stub) = 4096"
  "get_erase_size (esp32_rom ic stub) = (\<lambda>offset sz. sz)"
  by (simp_all add: esp32_rom_def)

lemma secure_new_loader [simp]: "secure_download_mode (new_loader port) = False"
  by (simp add: new_loader_def)

lemma calls_new_loader [simp]: "calls (new_loader port) = []"
  by (simp add: new_loader_def)

section \<open>The calls of an encrypted write\<close>

lemma write_flash_file_unfold:
  assumes "padded_image esp encrypted (content argfile) = Inr padded" and "padded \<noteq> []"
    and "update_image_flash_params esp address args padded = Inr img"
  shows "write_flash_file lb esp args (address, argfile, encrypted) s
     = sbind (write_image lb esp (compress args \<and> \<not> encrypted) encrypted address img)
         (\<lambda>_ s. if \<not> encrypted \<and> \<not> secure_download_mode s
                 then verify_md5 lb esp address (length img) (md5_hexdigest lb img) s
                 else (Inr (), s))
         (s\<lparr>printed := printed s
              @ (if compress args \<and> encrypted then [WarnCompressEncrypt (name argfile)] else [])
              @ (if no_stub args then [ErasingFlash] else [])\<rparr>)"
  using assms
  by (cases "compress args"; cases encrypted; cases "no_stub args")
    (simp_all add: write_flash_file_def sbind_def print_def ret_def lift_def Let_def
      split: prod.splits sum.splits)

lemma calls_flash_encrypt_block:
  "calls (snd (flash_encrypt_block esp d q s))
     = calls s @ FlashEncryptBlock d q #
        (if isinstance_any (rom esp) [ESP32S2ROM, ESP32C3ROM, ESP32S3ROM, ESP32H2ROM, ESP32C2ROM]
            \<and> \<not> IS_STUB esp
         then [FlashBlock d q] else [])"
proof -
  let ?s1 = "s\<lparr>calls := calls s @ [FlashEncryptBlock d q]\<rparr>"
  show ?thesis
  proof (cases "isinstance_any (rom esp) [ESP32S2ROM, ESP32C3ROM, ESP32S3ROM, ESP32H2ROM, ESP32C2ROM]
            \<and> \<not> IS_STUB esp")
    case True
    then have "flash_encrypt_block esp d q s = flash_block esp d q ?s1"
      by (simp add: flash_encrypt_block_def sbind_def record_call_def)
    then show ?thesis
      using True calls_flash_block [of esp d q ?s1] by simp
  next
    case False
    then have "flash_encrypt_block esp d q s
        = block_attempts esp ESP_FLASH_ENCRYPT_DATA d q (WRITE_BLOCK_ATTEMPTS - 1) ?s1"
      by (auto simp add: flash_encrypt_block_def sbind_def record_call_def
          simp del: block_attempts.simps)
    moreover have "calls (snd (block_attempts esp ESP_FLASH_ENCRYPT_DATA d q
        (WRITE_BLOCK_ATTEMPTS - 1) ?s1)) = calls ?s1"
      by (rule keepsD [OF keeps_block_attempts]) simp
    ultimately show ?thesis
      using False by simp
  qed
qed

lemma write_blocks_encrypted_calls:
  assumes "fst (write_blocks esp False True image_bytes seq s) = Inr ()"
  shows "calls (snd (write_blocks esp False True image_bytes seq s))
     = calls s @ concat (map (\<lambda>(b, i). FlashEncryptBlock b i #
          (if isinstance_any (rom esp) [ESP32S2ROM, ESP32C3ROM, ESP32S3ROM, ESP32H2ROM, ESP32C2ROM]
              \<and> \<not> IS_STUB esp
           then [FlashBlock b i] else []))
         (zip (padded_blocks (FLASH_WRITE_SIZE esp) image_bytes)
            [seq..<seq + length (padded_blocks (FLASH_WRITE_SIZE esp) image_bytes)]))"
  using assms
proof (induction esp "False" "True" image_bytes seq arbitrary: s rule: write_blocks.induct)
  case (1 esp image_bytes seq)
  let ?bs = "FLASH_WRITE_SIZE esp"
  let ?c = "\<lambda>(b, i). FlashEncryptBlock b i #
          (if isinstance_any (rom esp) [ESP32S2ROM, ESP32C3ROM, ESP32S3ROM, ESP32H2ROM, ESP32C2ROM]
              \<and> \<not> IS_STUB esp
           then [FlashBlock b i] else [])"
  show ?case
  proof (cases "image_bytes = []")
    case True
    then show ?thesis
      by (simp add: write_blocks.simps padded_blocks_Nil ret_def)
  next
    case False
    have bs: "?bs \<noteq> 0"
    proof
      assume "?bs = 0"
      with False 1(2) show False
        by (simp add: write_blocks.simps raise_def)
    qed
    let ?blk = "take ?bs image_bytes @ replicate (?bs - length (take ?bs image_bytes)) 0xFF"
    let ?rest = "write_blocks esp False True (drop ?bs image_bytes) (seq + 1)"
    have unfold: "write_blocks esp False True image_bytes seq
        = sbind (flash_encrypt_block esp ?blk seq) (\<lambda>_. ?rest)"
      using False bs by (subst write_blocks.simps) (simp add: Let_def)
    from 1(2) obtain v where
      cont: "sbind (flash_encrypt_block esp ?blk seq) (\<lambda>_. ?rest) s
          = ?rest (snd (flash_encrypt_block esp ?blk seq s))"
      unfolding unfold by (rule sbind_Inr)
    let ?s1 = "snd (flash_encrypt_block esp ?blk seq s)"
    have ok: "fst (?rest ?s1) = Inr ()"
      using 1(2) unfolding unfold cont .
    have IH: "calls (snd (?rest ?s1)) = calls ?s1 @ concat (map ?c
         (zip (padded_blocks ?bs (drop ?bs image_bytes))
            [seq + 1..<seq + 1 + length (padded_blocks ?bs (drop ?bs image_bytes))]))"
      using 1(1) [OF False bs refl ok] .
    have c1: "calls ?s1 = calls s @ ?c (?blk, seq)"
      using calls_flash_encrypt_block [of esp ?blk seq s] by simp
    have pb: "padded_blocks ?bs image_bytes = ?blk # padded_blocks ?bs (drop ?bs image_bytes)"
      using False bs by (rule padded_blocks_step)
    let ?n = "length (padded_blocks ?bs (drop ?bs image_bytes))"
    have "[seq..<seq + Suc ?n] = seq # [Suc seq..<seq + Suc ?n]"
      by (rule upt_conv_Cons) simp
    then have up: "[seq..<seq + length (?blk # padded_blocks ?bs (drop ?bs image_bytes))]
        = seq # [seq + 1..<seq + 1 + ?n]"
      by simp
    show ?thesis
      unfolding unfold cont IH c1 pb up by simp
  qed
qed

lemma write_image_encrypted_calls:
  assumes "fst (write_image lb esp False True address img s) = Inr ()"
  shows "calls (snd (write_image lb esp False True address img s))
      = calls s @ FlashBegin (length img) address True #
        concat (map (\<lambda>(b, i). FlashEncryptBlock b i #
          (if isinstance_any (rom esp) [ESP32S2ROM, ESP32C3ROM, ESP32S3ROM, ESP32H2ROM, ESP32C2ROM]
              \<and> \<not> IS_STUB esp
           then [FlashBlock b i] else []))
          (zip (padded_blocks (FLASH_WRITE_SIZE esp) img)
             [0..<length (padded_blocks (FLASH_WRITE_SIZE esp) img)])) @
        (if IS_STUB esp then [ReadReg CHIP_DETECT_MAGIC_REG_ADDR] else [])"
proof -
  let ?begin = "flash_begin esp (length img) address True"
  let ?tail = "\<lambda>u::unit. if IS_STUB esp then sbind (read_reg CHIP_DETECT_MAGIC_REG_ADDR) (\<lambda>_. ret ())
        else ret ()"
  let ?c = "\<lambda>(b, i). FlashEncryptBlock b i #
          (if isinstance_any (rom esp) [ESP32S2ROM, ESP32C3ROM, ESP32S3ROM, ESP32H2ROM, ESP32C2ROM]
              \<and> \<not> IS_STUB esp
           then [FlashBlock b i] else [])"
  obtain r1 s1 where b: "?begin s = (r1, s1)" by (cases "?begin s")
  obtain r2 s2 where w: "write_blocks esp False True img 0 s1 = (r2, s2)"
    by (cases "write_blocks esp False True img 0 s1")
  from assms b obtain nb where r1: "r1 = Inr nb"
    by (cases r1) (simp_all add: write_image_def sbind_def)
  from assms b r1 w have r2: "r2 = Inr ()"
    by (cases r2) (simp_all add: write_image_def sbind_def ret_def)
  from assms b r1 w r2 have fin: "write_image lb esp False True address img s = ?tail () s2"
    by (simp_all add: write_image_def sbind_def ret_def)
  have c1: "calls s1 = calls s @ [FlashBegin (length img) address True]"
    using calls_flash_begin [of esp "length img" address True s] b by simp
  have c2: "calls s2 = calls s1 @ concat (map ?c
          (zip (padded_blocks (FLASH_WRITE_SIZE esp) img)
             [0..<0 + length (padded_blocks (FLASH_WRITE_SIZE esp) img)]))"
    using write_blocks_encrypted_calls [of esp img 0 s1] w r2 by simp
  have c3: "calls (snd (?tail () s2))
      = calls s2 @ (if IS_STUB esp then [ReadReg CHIP_DETECT_MAGIC_REG_ADDR] else [])"
  proof (cases "IS_STUB esp")
    case True
    have "calls (snd (sbind (read_reg CHIP_DETECT_MAGIC_REG_ADDR) (\<lambda>_. ret ()) s2))
        = calls (snd (read_reg CHIP_DETECT_MAGIC_REG_ADDR s2))"
      by (cases "read_reg CHIP_DETECT_MAGIC_REG_ADDR s2")
        (auto simp add: sbind_def ret_def split: sum.splits)
    then show ?thesis
      using True by (simp add: calls_read_reg)
  next
    case False
    then show ?thesis by (simp add: ret_def)
  qed
  show ?thesis
    unfolding fin c3 c2 c1 by simp
qed

lemma write_image_plain_first_call:
  "\<exists>cs. calls (snd (write_image lb esp False e a img s)) = calls s @ FlashBegin (length img) a e # cs
     \<and> list_all (\<lambda>c. \<not> is_defl c) cs"
proof -
  let ?m = "sbind (flash_begin esp (length img) a e) (\<lambda>blocks. ret img)"
  have m: "calls (snd (?m s)) = calls s @ [FlashBegin (length img) a e]"
    using calls_flash_begin [of esp "length img" a e s]
    by (cases "flash_begin esp (length img) a e s")
      (auto simp add: sbind_def ret_def split: sum.splits)
  have "\<exists>cs. calls (snd (sbind ?m (\<lambda>to_send.
      sbind (write_blocks esp False e to_send 0) (\<lambda>_.
        if IS_STUB esp then sbind (read_reg CHIP_DETECT_MAGIC_REG_ADDR) (\<lambda>_. ret ())
        else ret ())) s))
     = calls s @ [FlashBegin (length img) a e] @ cs
       \<and> list_all (\<lambda>c. \<not> is_defl c) cs"
    by (rule sbind_calls_prefix [where m = ?m and s = s, OF m])
      (simp add: emits_sbind emits_write_blocks_plain emits_read_reg)
  then show ?thesis
    by (simp add: write_image_def Let_def)
qed

lemma write_flash_file_encrypted_calls:
  assumes p: "padded_image esp True (content argfile) = Inr padded" "padded \<noteq> []"
    and u: "update_image_flash_params esp address args padded = Inr img"
  shows "\<exists>cs. calls (snd (write_flash_file lb esp args (address, argfile, True) s))
        = calls s @ FlashBegin (length img) address True # cs
       \<and> list_all (\<lambda>c. \<not> is_defl c) cs"
    and "fst (write_flash_file lb esp args (address, argfile, True) s) = Inr () \<Longrightarrow>
      calls (snd (write_flash_file lb esp args (address, argfile, True) s))
      = calls s @ FlashBegin (length img) address True #
        concat (map (\<lambda>(b, i). FlashEncryptBlock b i #
          (if isinstance_any (rom esp) [ESP32S2ROM, ESP32C3ROM, ESP32S3ROM, ESP32H2ROM, ESP32C2ROM]
              \<and> \<not> IS_STUB esp
           then [FlashBlock b i] else []))
          (zip (padded_blocks (FLASH_WRITE_SIZE esp) img)
             [0..<length (padded_blocks (FLASH_WRITE_SIZE esp) img)])) @
        (if IS_STUB esp then [ReadReg CHIP_DETECT_MAGIC_REG_ADDR] else [])"
proof -
  let ?s0 = "s\<lparr>printed := printed s
              @ (if compress args \<and> True then [WarnCompressEncrypt (name argfile)] else [])
              @ (if no_stub args then [ErasingFlash] else [])\<rparr>"
  let ?m = "write_image lb esp False True address img"
  have "write_flash_file lb esp args (address, argfile, True) s
      = sbind ?m (\<lambda>_ s. (Inr (), s)) ?s0"
    using write_flash_file_unfold [OF p u, of lb s] by simp
  also have "\<dots> = ?m ?s0"
    by (cases "?m ?s0") (auto simp add: sbind_def split: sum.splits)
  finally have e: "write_flash_file lb esp args (address, argfile, True) s = ?m ?s0" .
  show "\<exists>cs. calls (snd (write_flash_file lb esp args (address, argfile, True) s))
        = calls s @ FlashBegin (length img) address True # cs
       \<and> list_all (\<lambda>c. \<not> is_defl c) cs"
    unfolding e using write_image_plain_first_call [of lb esp True address img ?s0] by simp
  assume "fst (write_flash_file lb esp args (address, argfile, True) s) = Inr ()"
  then have "fst (?m ?s0) = Inr ()" unfolding e .
  from write_image_encrypted_calls [OF this]
  show "calls (snd (write_flash_file lb esp args (address, argfile, True) s))
      = calls s @ FlashBegin (length img) address True #
        concat (map (\<lambda>(b, i). FlashEncryptBlock b i #
          (if isinstance_any (rom esp) [ESP32S2ROM, ESP32C3ROM, ESP32S3ROM, ESP32H2ROM, ESP32C2ROM]
              \<and> \<not> IS_STUB esp
           then [FlashBlock b i] else []))
          (zip (padded_blocks (FLASH_WRITE_SIZE esp) img)
             [0..<length (padded_blocks (FLASH_WRITE_SIZE esp) img)])) @
        (if IS_STUB esp then [ReadReg CHIP_DETECT_MAGIC_REG_ADDR] else [])"
    unfolding e by simp
qed

text \<open>C9. Compression and encryption exclude each other file by file. For a file that is to be
  encrypted the loop body never calls a deflate method, whatever \<^verbatim>\<open>args.compress\<close> says;
  when compression was requested too, the body prints the warning and then behaves as it does
  with compression off. Such a file is written through the encrypted block path: once its
  padded and patched buffer is there and not empty, the first call is \<^verbatim>\<open>flash_begin\<close> with
  the encryption flag set, and when the body returns normally the calls are exactly that
  \<^verbatim>\<open>flash_begin\<close>, then \<^verbatim>\<open>flash_encrypt_block\<close> once for every block of the buffer with the
  sequence numbers 0, 1, ... (on the ROM loaders that have no separate command for it, each
  followed by the \<^verbatim>\<open>flash_block\<close> it delegates to), then on a stub the closing register read,
  and no MD5 command. A file of the same batch that is not encrypted keeps the setting: with
  \<^verbatim>\<open>args.compress\<close> on, its first call is \<^verbatim>\<open>flash_defl_begin\<close> and no method of the
  uncompressed path is called for it.\<close>

theorem compress_dropped_when_encrypted:
  "(\<exists>cs. calls (snd (write_flash_file lb esp args (address, argfile, True) s)) = calls s @ cs
       \<and> list_all (\<lambda>c. \<not> is_defl c) cs) \<and>
   (compress args \<longrightarrow>
      write_flash_file lb esp args (address, argfile, True) s
        = write_flash_file lb esp (args\<lparr>compress := False\<rparr>) (address, argfile, True)
            (s\<lparr>printed := printed s @ [WarnCompressEncrypt (name argfile)]\<rparr>)) \<and>
   (padded_image esp True (content argfile) = Inr epadded \<longrightarrow> epadded \<noteq> [] \<longrightarrow>
    update_image_flash_params esp address args epadded = Inr eimg \<longrightarrow>
      (\<exists>cs. calls (snd (write_flash_file lb esp args (address, argfile, True) s))
          = calls s @ FlashBegin (length eimg) address True # cs
         \<and> list_all (\<lambda>c. \<not> is_defl c) cs) \<and>
      (fst (write_flash_file lb esp args (address, argfile, True) s) = Inr () \<longrightarrow>
         calls (snd (write_flash_file lb esp args (address, argfile, True) s))
           = calls s @ FlashBegin (length eimg) address True #
             concat (map (\<lambda>(b, i). FlashEncryptBlock b i #
               (if isinstance_any (rom esp)
                     [ESP32S2ROM, ESP32C3ROM, ESP32S3ROM, ESP32H2ROM, ESP32C2ROM]
                   \<and> \<not> IS_STUB esp
                then [FlashBlock b i] else []))
               (zip (padded_blocks (FLASH_WRITE_SIZE esp) eimg)
                  [0..<length (padded_blocks (FLASH_WRITE_SIZE esp) eimg)])) @
             (if IS_STUB esp then [ReadReg CHIP_DETECT_MAGIC_REG_ADDR] else []))) \<and>
   (compress args \<longrightarrow> padded_image esp False (content other) = Inr padded \<longrightarrow> padded \<noteq> [] \<longrightarrow>
    update_image_flash_params esp address2 args padded = Inr img \<longrightarrow>
      (\<exists>cs. calls (snd (write_flash_file lb esp args (address2, other, False) s2))
          = calls s2 @ FlashDeflBegin (length img) (length (zlib_compress lb img)) address2 # cs
         \<and> list_all (\<lambda>c. \<not> is_plain_write c) cs))"
proof -
  have 1: "\<exists>cs. calls (snd (write_flash_file lb esp args (address, argfile, True) s)) = calls s @ cs
       \<and> list_all (\<lambda>c. \<not> is_defl c) cs"
    by (rule emitsD [OF emits_write_flash_file_encrypted])
  have 2: "compress args \<longrightarrow>
      write_flash_file lb esp args (address, argfile, True) s
        = write_flash_file lb esp (args\<lparr>compress := False\<rparr>) (address, argfile, True)
            (s\<lparr>printed := printed s @ [WarnCompressEncrypt (name argfile)]\<rparr>)"
    using write_flash_file_compress_encrypted [of args lb esp address argfile s] by blast
  show ?thesis
    using 1 2
      write_flash_file_encrypted_calls(1) [of esp argfile epadded address args eimg lb s]
      write_flash_file_encrypted_calls(2) [of esp argfile epadded address args eimg lb s]
      write_flash_file_compressed_calls [of args esp other padded address2 img lb s2]
    by blast
qed

theorem compress_dropped_when_encrypted_witness:
  "compress args_compress \<and>
   padded_image (esp32_rom unparsed_image stub0) True (content app_bin)
     = Inr ([1, 2, 3, 4] @ replicate 28 0xFF) \<and>
   update_image_flash_params (esp32_rom unparsed_image stub0) 0x10000 args_compress
       ([1, 2, 3, 4] @ replicate 28 0xFF)
     = Inr ([1, 2, 3, 4] @ replicate 28 0xFF) \<and>
   fst (write_flash_file lib1 (esp32_rom unparsed_image stub0) args_compress
       (0x10000, app_bin, True) (new_loader encrypted_port)) = Inr () \<and>
   calls (snd (write_flash_file lib1 (esp32_rom unparsed_image stub0) args_compress
       (0x10000, app_bin, True) (new_loader encrypted_port)))
     = [FlashBegin 32 0x10000 True,
        FlashEncryptBlock ([1, 2, 3, 4] @ replicate 28 0xFF @ replicate 992 0xFF) 0] \<and>
   padded_image (esp32_rom unparsed_image stub0) False (content data_bin)
     = Inr (content data_bin) \<and>
   update_image_flash_params (esp32_rom unparsed_image stub0) 0x20000 args_compress
       (content data_bin)
     = Inr (content data_bin) \<and>
   fst (write_flash_file lib1 (esp32_rom unparsed_image stub0) args_compress
       (0x20000, data_bin, False) (new_loader deflate_port)) = Inr () \<and>
   (\<exists>cs. calls (snd (write_flash_file lib1 (esp32_rom unparsed_image stub0) args_compress
        (0x20000, data_bin, False) (new_loader deflate_port)))
      = FlashDeflBegin 16 16 0x20000 # cs
      \<and> list_all (\<lambda>c. \<not> is_plain_write c) cs)"
proof -
  let ?esp = "esp32_rom unparsed_image stub0"
  let ?eimg = "[1, 2, 3, 4] @ replicate 28 (0xFF::byte)"
  let ?dimg = "content data_bin"
  let ?se = "new_loader encrypted_port"
  let ?sd = "new_loader deflate_port"
  let ?We = "write_flash_file lib1 ?esp args_compress (0x10000, app_bin, True) ?se"
  let ?Wd = "write_flash_file lib1 ?esp args_compress (0x20000, data_bin, False) ?sd"
  have a: "compress args_compress"
    by (simp add: args_compress_def)
  have ns: "\<not> no_stub args_compress"
    by (simp add: args_compress_def)
  have e1: "padded_image ?esp True (content app_bin) = Inr ?eimg"
    by (simp add: padded_image_def pad_to_def app_bin_def)
  have e2: "?eimg \<noteq> []"
    by simp
  have e3: "update_image_flash_params ?esp 0x10000 args_compress ?eimg = Inr ?eimg"
    by (simp add: update_image_flash_params_def Let_def)
  have d1: "padded_image ?esp False ?dimg = Inr ?dimg"
    by (simp add: padded_image_def pad_to_def data_bin_def)
  have d2: "?dimg \<noteq> []"
    by (simp add: data_bin_def)
  have d3: "update_image_flash_params ?esp 0x20000 args_compress ?dimg = Inr ?dimg"
    by (simp add: update_image_flash_params_def Let_def)
  have ne: "length (padded_blocks (FLASH_WRITE_SIZE ?esp) ?eimg) = 1"
    by (simp add: padded_blocks_length)
  have pb: "padded_blocks (FLASH_WRITE_SIZE ?esp) ?eimg = [?eimg @ replicate 992 0xFF]"
    by (simp add: padded_blocks_step padded_blocks_Nil)
  have nd: "length (padded_blocks (FLASH_WRITE_SIZE ?esp) (zlib_compress lib1 ?dimg)) = 1"
    by (simp add: padded_blocks_length lib1_def data_bin_def)
  have inst: "\<not> isinstance_any (rom ?esp) [ESP32S2ROM, ESP32C3ROM, ESP32S3ROM, ESP32H2ROM, ESP32C2ROM]"
    by (simp add: isinstance_any_def)
  let ?pe = "?se\<lparr>printed := printed ?se
              @ (if compress args_compress \<and> True then [WarnCompressEncrypt (name app_bin)] else [])
              @ (if no_stub args_compress then [ErasingFlash] else [])\<rparr>"
  have ue: "?We = sbind (write_image lib1 ?esp (compress args_compress \<and> \<not> True) True 0x10000 ?eimg)
         (\<lambda>_ s. if \<not> True \<and> \<not> secure_download_mode s
                 then verify_md5 lib1 ?esp 0x10000 (length ?eimg) (md5_hexdigest lib1 ?eimg) s
                 else (Inr (), s)) ?pe"
    using e1 e2 e3 by (rule write_flash_file_unfold)
  have re: "ready ?pe (slip_encode (ok_reply (STATUS_BYTES_LENGTH ?esp) ESP_FLASH_BEGIN []) #
        replicate (length (padded_blocks (FLASH_WRITE_SIZE ?esp) ?eimg))
          (slip_encode (ok_reply (STATUS_BYTES_LENGTH ?esp)
             (if True then ESP_FLASH_ENCRYPT_DATA else ESP_FLASH_DATA) [])) @ [])"
    unfolding ne using ready_new_loader [of encrypted_port]
    by (simp add: encrypted_port_def)
  have we: "fst (write_image lib1 ?esp False True 0x10000 ?eimg ?pe) = Inr ()"
    by (rule write_image_ok(1) [OF _ _ _ _ _ _ _ _ re]) (simp_all add: isinstance_any_def)
  have ok_enc: "fst ?We = Inr ()"
    unfolding ue using we a ns by (auto simp add: sbind_def split: prod.splits sum.splits)
  let ?pd = "?sd\<lparr>printed := printed ?sd
              @ (if compress args_compress \<and> False then [WarnCompressEncrypt (name data_bin)] else [])
              @ (if no_stub args_compress then [ErasingFlash] else [])\<rparr>"
  let ?md5 = "slip_encode (ok_reply (STATUS_BYTES_LENGTH ?esp) ESP_SPI_FLASH_MD5
      (ascii_bytes ''0102030405060708090a0b0c0d0e0f10''))"
  let ?wd = "write_image lib1 ?esp True False 0x20000 ?dimg"
  have ud: "?Wd = sbind (write_image lib1 ?esp (compress args_compress \<and> \<not> False) False 0x20000 ?dimg)
         (\<lambda>_ s. if \<not> False \<and> \<not> secure_download_mode s
                 then verify_md5 lib1 ?esp 0x20000 (length ?dimg) (md5_hexdigest lib1 ?dimg) s
                 else (Inr (), s)) ?pd"
    using d1 d2 d3 by (rule write_flash_file_unfold)
  have rd: "ready ?pd (slip_encode (ok_reply (STATUS_BYTES_LENGTH ?esp) ESP_FLASH_DEFL_BEGIN []) #
        replicate (length (padded_blocks (FLASH_WRITE_SIZE ?esp) (zlib_compress lib1 ?dimg)))
          (slip_encode (ok_reply (STATUS_BYTES_LENGTH ?esp) ESP_FLASH_DEFL_DATA [])) @ [?md5])"
    unfolding nd using ready_new_loader [of deflate_port]
    by (simp add: deflate_port_def)
  have wd1: "fst (?wd ?pd) = Inr ()"
    by (rule write_image_defl_ok(1) [OF _ _ _ _ _ _ _ _ rd]) (simp_all add: lib1_def data_bin_def)
  have wd2: "ready (snd (?wd ?pd)) [?md5]"
    by (rule write_image_defl_ok(2) [OF _ _ _ _ _ _ _ _ rd]) (simp_all add: lib1_def data_bin_def)
  have sec: "\<not> secure_download_mode (snd (?wd ?pd))"
    by (simp add: secure_write_image)
  have digest: "md5_hexdigest lib1 ?dimg = ''0102030405060708090a0b0c0d0e0f10''"
    by (simp add: lib1_def data_bin_def hexify_lower_def hex_digit_def)
  have "list_all (\<lambda>c. of_char c < (128::nat)) (md5_hexdigest lib1 ?dimg)"
    by (simp add: lib1_def hexify_lower_ascii)
  then have "ascii_decode (ascii_bytes ''0102030405060708090a0b0c0d0e0f10'')
      = Inr ''0102030405060708090a0b0c0d0e0f10''"
    unfolding digest by (rule ascii_decode_bytes)
  then have dec: "utf8_decode lib1 (ascii_bytes ''0102030405060708090a0b0c0d0e0f10'')
      = Inr (md5_hexdigest lib1 ?dimg)"
    unfolding digest by (simp add: lib1_def)
  have vd: "fst (verify_md5 lib1 ?esp 0x20000 (length ?dimg) (md5_hexdigest lib1 ?dimg)
      (snd (?wd ?pd))) = Inr ()"
    by (rule verify_md5_ok(1) [OF wd2 _ _ _ _ _ dec]) (simp_all add: ascii_bytes_def data_bin_def)
  have ok_defl: "fst ?Wd = Inr ()"
    unfolding ud using a ns sec vd wd1
    by (auto simp add: sbind_def split: prod.splits sum.splits)
  note T = compress_dropped_when_encrypted [where lb = lib1 and esp = ?esp and args = args_compress
      and address = "0x10000" and argfile = app_bin and s = ?se and epadded = ?eimg
      and eimg = ?eimg and other = data_bin and padded = ?dimg and ?address2.0 = "0x20000"
      and img = ?dimg and ?s2.0 = ?sd]
  from T e1 e2 e3 ok_enc
  have ce: "calls (snd ?We)
      = calls ?se @ FlashBegin (length ?eimg) 0x10000 True #
             concat (map (\<lambda>(b, i). FlashEncryptBlock b i #
               (if isinstance_any (rom ?esp)
                     [ESP32S2ROM, ESP32C3ROM, ESP32S3ROM, ESP32H2ROM, ESP32C2ROM]
                   \<and> \<not> IS_STUB ?esp
                then [FlashBlock b i] else []))
               (zip (padded_blocks (FLASH_WRITE_SIZE ?esp) ?eimg)
                  [0..<length (padded_blocks (FLASH_WRITE_SIZE ?esp) ?eimg)])) @
             (if IS_STUB ?esp then [ReadReg CHIP_DETECT_MAGIC_REG_ADDR] else [])"
    by blast
  have ce': "calls (snd ?We) = [FlashBegin 32 0x10000 True,
        FlashEncryptBlock ([1, 2, 3, 4] @ replicate 28 0xFF @ replicate 992 0xFF) 0]"
    unfolding ce pb by (simp add: isinstance_any_def)
  have l1: "length ?dimg = 16"
    by (simp add: data_bin_def)
  have l2: "length (zlib_compress lib1 ?dimg) = 16"
    by (simp add: lib1_def data_bin_def)
  from T a d1 d2 d3
  have "\<exists>cs. calls (snd ?Wd)
          = calls ?sd @ FlashDeflBegin (length ?dimg) (length (zlib_compress lib1 ?dimg)) 0x20000 # cs
         \<and> list_all (\<lambda>c. \<not> is_plain_write c) cs"
    by blast
  then have cd: "\<exists>cs. calls (snd ?Wd) = FlashDeflBegin 16 16 0x20000 # cs
         \<and> list_all (\<lambda>c. \<not> is_plain_write c) cs"
    unfolding l1 l2 by simp
  show ?thesis
    using a e1 e3 ok_enc ce' d1 d3 ok_defl cd by blast
qed

section \<open>The block count of an uncompressed write\<close>

text \<open>C2. Block count of the uncompressed, unencrypted write. The data buffer is \<open>img\<close>, the
  buffer that the loop body holds after the alignment to 4 bytes and the flash-parameter
  patch, and the block size is \<^verbatim>\<open>FLASH_WRITE_SIZE\<close>. When the loop body returns normally for a
  file whose buffer is not empty, the methods it has called are, in this order:
  \<^verbatim>\<open>flash_begin\<close> for the length of \<open>img\<close>, then \<^verbatim>\<open>flash_block\<close> once for every block with the
  sequence numbers 0, 1, ..., then on a stub the closing register read, then, unless the loader
  is in secure download mode, \<^verbatim>\<open>flash_md5sum\<close> for the length of \<open>img\<close>. The blocks are
  \<open>ceil(length img / block size)\<close> many, every one has the length of the block size, so their
  lengths add up to the count times the block size, and put together they are \<open>img\<close> followed
  by 0xFF bytes. The digest that the device returned for the \<open>length img\<close> bytes it was asked
  about equals the local digest of \<open>img\<close> itself, without the padding of the last block, unless
  the loader class does not implement the MD5 command.\<close>

theorem write_flash_block_count:
  assumes ok: "fst (write_flash_file lb esp args (address, argfile, False) s) = Inr ()"
    and plain: "\<not> compress args"
    and padded: "padded_image esp False (content argfile) = Inr padded" "padded \<noteq> []"
    and patched: "update_image_flash_params esp address args padded = Inr img"
  shows "\<exists>blocks.
     length blocks = (length img + FLASH_WRITE_SIZE esp - 1) div FLASH_WRITE_SIZE esp \<and>
     list_all (\<lambda>b. length b = FLASH_WRITE_SIZE esp) blocks \<and>
     sum_list (map length blocks) = length blocks * FLASH_WRITE_SIZE esp \<and>
     concat blocks = img @ replicate (length blocks * FLASH_WRITE_SIZE esp - length img) 0xFF \<and>
     calls (snd (write_flash_file lb esp args (address, argfile, False) s))
       = calls s @ FlashBegin (length img) address False #
         map (\<lambda>(b, i). FlashBlock b i) (zip blocks [0..<length blocks]) @
         (if IS_STUB esp then [ReadReg CHIP_DETECT_MAGIC_REG_ADDR] else []) @
         (if secure_download_mode s then [] else [FlashMd5sum address (length img)]) \<and>
     (secure_download_mode s \<or>
      fst (flash_md5sum lb esp address (length img)
            (snd (write_image lb esp False False address img
               (if no_stub args then s\<lparr>printed := printed s @ [ErasingFlash]\<rparr> else s))))
        = Inr (md5_hexdigest lb img) \<or>
      fst (flash_md5sum lb esp address (length img)
            (snd (write_image lb esp False False address img
               (if no_stub args then s\<lparr>printed := printed s @ [ErasingFlash]\<rparr> else s))))
        = Inl NotImplementedInROMError)"
proof -
  let ?bs = "FLASH_WRITE_SIZE esp"
  let ?s0 = "if no_stub args then s\<lparr>printed := printed s @ [ErasingFlash]\<rparr> else s"
  let ?m = "write_image lb esp False False address img"
  let ?f = "\<lambda>(u::unit) s. if \<not> secure_download_mode s
      then verify_md5 lb esp address (length img) (md5_hexdigest lb img) s else (Inr (), s)"
  let ?W = "write_flash_file lb esp args (address, argfile, False) s"
  have unfold: "?W = sbind ?m ?f ?s0"
    using plain padded patched
    by (simp add: write_flash_file_def sbind_def print_def ret_def lift_def Let_def)
  obtain r1 s1 where m: "?m ?s0 = (r1, s1)" by (cases "?m ?s0")
  from ok m have r1: "r1 = Inr ()"
    unfolding unfold by (cases r1) (simp_all add: sbind_def)
  have s1: "s1 = snd (?m ?s0)" using m by simp
  have fin: "?W = ?f () s1"
    unfolding unfold using m r1 by (simp add: sbind_def)
  have wi: "fst (?m ?s0) = Inr ()" using m r1 by simp
  have bs: "?bs \<noteq> 0"
    using wi by (rule write_image_plain_calls(1))
  have "calls (snd (?m ?s0)) = calls ?s0 @ FlashBegin (length img) address False #
        map (\<lambda>(b, i). FlashBlock b i)
          (zip (padded_blocks ?bs img) [0..<length (padded_blocks ?bs img)]) @
        (if IS_STUB esp then [ReadReg CHIP_DETECT_MAGIC_REG_ADDR] else [])"
    using wi by (rule write_image_plain_calls(2))
  then have c1: "calls s1 = calls s @ FlashBegin (length img) address False #
        map (\<lambda>(b, i). FlashBlock b i)
          (zip (padded_blocks ?bs img) [0..<length (padded_blocks ?bs img)]) @
        (if IS_STUB esp then [ReadReg CHIP_DETECT_MAGIC_REG_ADDR] else [])"
    using m by (simp split: if_splits)
  have sec: "secure_download_mode s1 = secure_download_mode s"
    using secure_write_image [of lb esp False False address img ?s0] m
    by (simp split: if_splits)
  have p1: "length (padded_blocks ?bs img) = (length img + ?bs - 1) div ?bs"
    using bs by (simp add: padded_blocks_length)
  have p2: "list_all (\<lambda>b. length b = ?bs) (padded_blocks ?bs img)"
    by (simp add: list_all_iff padded_blocks_each)
  have p3: "sum_list (map length (padded_blocks ?bs img)) = length (padded_blocks ?bs img) * ?bs"
    by (rule padded_blocks_sum)
  have p4: "concat (padded_blocks ?bs img)
      = img @ replicate (length (padded_blocks ?bs img) * ?bs - length img) 0xFF"
    using bs by (simp add: padded_blocks_concat)
  have c2: "calls (snd ?W) = calls s1 @
      (if secure_download_mode s then [] else [FlashMd5sum address (length img)])"
    unfolding fin using sec by (simp add: verify_md5_calls)
  have last: "secure_download_mode s \<or>
      fst (flash_md5sum lb esp address (length img) s1) = Inr (md5_hexdigest lb img) \<or>
      fst (flash_md5sum lb esp address (length img) s1) = Inl NotImplementedInROMError"
  proof (cases "secure_download_mode s")
    case True
    then show ?thesis by simp
  next
    case False
    then have v: "?f () s1 = verify_md5 lb esp address (length img) (md5_hexdigest lb img) s1"
      using sec by simp
    have "fst (verify_md5 lb esp address (length img) (md5_hexdigest lb img) s1) = Inr ()"
      using ok unfolding fin v .
    then have "fst (flash_md5sum lb esp address (length img) s1) = Inr (md5_hexdigest lb img) \<or>
        fst (flash_md5sum lb esp address (length img) s1) = Inl NotImplementedInROMError"
      by (rule verify_md5_Inr)
    then show ?thesis by simp
  qed
  show ?thesis
    using p1 p2 p3 p4 c1 c2 last unfolding s1
    by (intro exI [of _ "padded_blocks ?bs img"]) simp
qed

theorem write_flash_block_count_witness:
  "\<not> compress args_dio \<and>
   length (content scenario_c_bin) = 10000 \<and>
   FLASH_WRITE_SIZE (esp32_rom unparsed_image stub0) = 1024 \<and>
   padded_image (esp32_rom unparsed_image stub0) False (content scenario_c_bin)
     = Inr (content scenario_c_bin) \<and>
   update_image_flash_params (esp32_rom unparsed_image stub0) 0x10000 args_dio
       (content scenario_c_bin)
     = Inr (content scenario_c_bin) \<and>
   fst (write_flash_file lib1 (esp32_rom unparsed_image stub0) args_dio
       (0x10000, scenario_c_bin, False) (new_loader scenario_c_port)) = Inr () \<and>
   (\<exists>blocks. length blocks = 10 \<and>
      list_all (\<lambda>b. length b = 1024) blocks \<and>
      sum_list (map length blocks) = 10240 \<and>
      concat blocks = content scenario_c_bin @ replicate 240 0xFF \<and>
      calls (snd (write_flash_file lib1 (esp32_rom unparsed_image stub0) args_dio
          (0x10000, scenario_c_bin, False) (new_loader scenario_c_port)))
        = FlashBegin 10000 0x10000 False #
          map (\<lambda>(b, i). FlashBlock b i) (zip blocks [0..<10]) @
          [FlashMd5sum 0x10000 10000]) \<and>
   fst (flash_md5sum lib1 (esp32_rom unparsed_image stub0) 0x10000 10000
         (snd (write_image lib1 (esp32_rom unparsed_image stub0) False False 0x10000
            (content scenario_c_bin) (new_loader scenario_c_port))))
     = Inr (md5_hexdigest lib1 (content scenario_c_bin))"
proof -
  let ?esp = "esp32_rom unparsed_image stub0"
  let ?img = "content scenario_c_bin"
  let ?s = "new_loader scenario_c_port"
  let ?W = "write_flash_file lib1 ?esp args_dio (0x10000, scenario_c_bin, False) ?s"
  let ?m = "write_image lib1 ?esp False False 0x10000 ?img"
  let ?body = "ascii_bytes (md5_hexdigest lib1 ?img)"
  let ?md5 = "slip_encode (ok_reply (STATUS_BYTES_LENGTH ?esp) ESP_SPI_FLASH_MD5 ?body)"
  have pl: "\<not> compress args_dio" and ns: "\<not> no_stub args_dio"
    by (simp_all add: args_dio_def)
  have len: "length ?img = 10000"
    by (simp add: scenario_c_bin_def)
  have bs: "FLASH_WRITE_SIZE ?esp = 1024"
    by simp
  have p1: "padded_image ?esp False ?img = Inr ?img"
    by (simp add: padded_image_def pad_to_def len)
  have p2: "?img \<noteq> []"
    using len by auto
  have p3: "update_image_flash_params ?esp 0x10000 args_dio ?img = Inr ?img"
    by (simp add: update_image_flash_params_def Let_def len)
  have n: "length (padded_blocks (FLASH_WRITE_SIZE ?esp) ?img) = 10"
    by (simp add: padded_blocks_length len)
  let ?p0 = "?s\<lparr>printed := printed ?s
              @ (if compress args_dio \<and> False then [WarnCompressEncrypt (name scenario_c_bin)] else [])
              @ (if no_stub args_dio then [ErasingFlash] else [])\<rparr>"
  have u: "?W = sbind (write_image lib1 ?esp (compress args_dio \<and> \<not> False) False 0x10000 ?img)
         (\<lambda>_ s. if \<not> False \<and> \<not> secure_download_mode s
                 then verify_md5 lib1 ?esp 0x10000 (length ?img) (md5_hexdigest lib1 ?img) s
                 else (Inr (), s)) ?p0"
    using p1 p2 p3 by (rule write_flash_file_unfold)
  have p0: "?p0 = ?s"
    using pl ns by (simp add: new_loader_def)
  have rd: "ready ?s (slip_encode (ok_reply (STATUS_BYTES_LENGTH ?esp) ESP_FLASH_BEGIN []) #
        replicate (length (padded_blocks (FLASH_WRITE_SIZE ?esp) ?img))
          (slip_encode (ok_reply (STATUS_BYTES_LENGTH ?esp)
             (if False then ESP_FLASH_ENCRYPT_DATA else ESP_FLASH_DATA) [])) @ [?md5])"
    unfolding n using ready_new_loader [of scenario_c_port]
    by (simp add: scenario_c_port_def)
  have w1: "fst (?m ?s) = Inr ()"
    by (rule write_image_ok(1) [OF _ _ _ _ _ _ _ _ rd]) (simp_all add: len)
  have w2: "ready (snd (?m ?s)) [?md5]"
    by (rule write_image_ok(2) [OF _ _ _ _ _ _ _ _ rd]) (simp_all add: len)
  have sec: "\<not> secure_download_mode (snd (?m ?s))"
    by (simp add: secure_write_image)
  have bl: "length ?body = 32"
    by (simp add: ascii_bytes_def lib1_def length_hexify_lower len)
  have "list_all (\<lambda>c. of_char c < (128::nat)) (md5_hexdigest lib1 ?img)"
    by (simp add: lib1_def hexify_lower_ascii)
  then have "ascii_decode ?body = Inr (md5_hexdigest lib1 ?img)"
    by (rule ascii_decode_bytes)
  then have dec: "utf8_decode lib1 ?body = Inr (md5_hexdigest lib1 ?img)"
    by (simp add: lib1_def)
  have md: "fst (flash_md5sum lib1 ?esp 0x10000 (length ?img) (snd (?m ?s)))
      = utf8_decode lib1 ?body"
    by (rule flash_md5sum_ok(1) [OF w2 _ _ _ _ bl]) (simp_all add: len)
  have vd: "fst (verify_md5 lib1 ?esp 0x10000 (length ?img) (md5_hexdigest lib1 ?img)
      (snd (?m ?s))) = Inr ()"
    by (rule verify_md5_ok(1) [OF w2 _ _ _ _ bl dec]) (simp_all add: len)
  have ok: "fst ?W = Inr ()"
    unfolding u p0 using pl sec vd w1
    by (auto simp add: sbind_def split: prod.splits sum.splits)
  from write_flash_block_count [OF ok pl p1 p2 p3]
  obtain blocks where b: "length blocks = (length ?img + FLASH_WRITE_SIZE ?esp - 1) div FLASH_WRITE_SIZE ?esp"
    "list_all (\<lambda>b. length b = FLASH_WRITE_SIZE ?esp) blocks"
    "sum_list (map length blocks) = length blocks * FLASH_WRITE_SIZE ?esp"
    "concat blocks = ?img @ replicate (length blocks * FLASH_WRITE_SIZE ?esp - length ?img) 0xFF"
    "calls (snd ?W)
       = calls ?s @ FlashBegin (length ?img) 0x10000 False #
         map (\<lambda>(b, i). FlashBlock b i) (zip blocks [0..<length blocks]) @
         (if IS_STUB ?esp then [ReadReg CHIP_DETECT_MAGIC_REG_ADDR] else []) @
         (if secure_download_mode ?s then [] else [FlashMd5sum 0x10000 (length ?img)])"
    by blast
  have b1: "length blocks = 10"
    using b(1) by (simp add: len)
  have b2: "list_all (\<lambda>b. length b = 1024) blocks"
    using b(2) by simp
  have b3: "sum_list (map length blocks) = 10240"
    using b(3) b1 by simp
  have b4: "concat blocks = ?img @ replicate 240 0xFF"
    using b(4) b1 by (simp add: len)
  have b5: "calls (snd ?W) = FlashBegin 10000 0x10000 False #
          map (\<lambda>(b, i). FlashBlock b i) (zip blocks [0..<10]) @ [FlashMd5sum 0x10000 10000]"
    using b(5) b1 by (simp add: len)
  have md': "fst (flash_md5sum lib1 ?esp 0x10000 10000 (snd (?m ?s)))
      = Inr (md5_hexdigest lib1 ?img)"
    using md dec by (simp add: len)
  show ?thesis
    using pl len bs p1 p3 ok b1 b2 b3 b4 b5 md' by blast
qed

section \<open>The overlap check of a RAM download\<close>





lemma mem_begin_rom_unchecked:
  "\<not> IS_STUB esp \<Longrightarrow>
   mem_begin (esp\<lparr>STUB_CODE := stub\<rparr>) sz blocks blocksize offset s
     = mem_begin esp sz blocks blocksize offset s"
  by (simp add: mem_begin_def check_command_def cong: if_cong)





end
